theory Spec2Isabelle
  imports Main "HOL-Library.Word" "HOL-Library.Multiset"
begin

unbundle bit_operations_syntax

section \<open>Machine integers\<close>

type_synonym u8 = "8 word"
type_synonym u16 = "16 word"
type_synonym u32 = "32 word"
type_synonym u64 = "64 word"

section \<open>Ticket spinlock (include/os3/spinlock.h)\<close>

text \<open>
  The lock is the 32-bit word \<open>head_tail\<close> of \<open>spinlock_t\<close>. The union overlays it with
  the two 16-bit fields \<open>head\<close> (first member, the low half on the little-endian x86
  targets of the source) and \<open>tail\<close> (the high half).
\<close>

definition lock_head :: "u32 \<Rightarrow> u16" where
  "lock_head head_tail = ucast (head_tail AND 0xFFFF)"

definition lock_tail :: "u32 \<Rightarrow> u16" where
  "lock_tail head_tail = ucast (drop_bit 16 head_tail)"

definition mk_lock :: "u16 \<Rightarrow> u16 \<Rightarrow> u32" where
  "mk_lock h t = (ucast h) OR push_bit 16 (ucast t)"

text \<open>
  \<open>__atomic_compare_exchange_n(ptr, &expected, desired, ...)\<close>: the memory cell holds
  \<open>mem\<close>; on a match the cell receives \<open>desired\<close> and the call yields true, otherwise
  the cell is left as it is.
\<close>

definition atomic_compare_exchange :: "u32 \<Rightarrow> u32 \<Rightarrow> u32 \<Rightarrow> bool \<times> u32" where
  "atomic_compare_exchange mem expected desired =
     (if mem = expected then (True, desired) else (False, mem))"

text \<open>
  \<open>spin_trylock\<close>: the argument is the lock word in memory, the result is the returned
  int and the lock word afterwards. The function has no loop.
\<close>

definition spin_trylock :: "u32 \<Rightarrow> int \<times> u32" where
  "spin_trylock lock =
     (let old = lock in
      if drop_bit 16 old \<noteq> (old AND 0xFFFF) then (0, lock)
      else
        let new = old + 0x10000 in
        case atomic_compare_exchange lock old new of
          (True, lock') \<Rightarrow> (1, lock')
        | (False, lock') \<Rightarrow> (0, lock'))"

definition spin_is_locked :: "u32 \<Rightarrow> bool" where
  "spin_is_locked lock = (let val = lock in drop_bit 16 val \<noteq> (val AND 0xFFFF))"

definition spin_unlock :: "u32 \<Rightarrow> u32" where
  "spin_unlock lock = mk_lock (lock_head lock + 1) (lock_tail lock)"

section \<open>Priority classes (include/os3/scheduler.h)\<close>

definition SCHED_CLASS_IDLE :: u8 where "SCHED_CLASS_IDLE = 0"
definition SCHED_CLASS_REGULAR :: u8 where "SCHED_CLASS_REGULAR = 1"
definition SCHED_CLASS_TIMECRIT :: u8 where "SCHED_CLASS_TIMECRIT = 2"
definition SCHED_CLASS_SERVER :: u8 where "SCHED_CLASS_SERVER = 3"
definition SCHED_CLASS_REALTIME :: u8 where "SCHED_CLASS_REALTIME = 4"

definition NUM_SCHED_CLASSES :: nat where "NUM_SCHED_CLASSES = 5"
definition PRIO_LEVELS_PER_CLASS :: nat where "PRIO_LEVELS_PER_CLASS = 32"

text \<open>
  \<open>os2_to_internal_priority(uint8_t prtyclass, uint8_t prtylevel)\<close>. Both parameters are
  unsigned bytes. \<open>prtylevel + 31\<close> is computed in \<open>int\<close> after promotion, divided by two
  and stored back into a \<open>uint8_t\<close>; the result is again a \<open>uint8_t\<close>.
\<close>

definition os2_to_internal_priority :: "u8 \<Rightarrow> u8 \<Rightarrow> u8" where
  "os2_to_internal_priority prtyclass prtylevel =
     (let sched_class =
            (if prtyclass = 1 then SCHED_CLASS_IDLE
             else if prtyclass = 2 then SCHED_CLASS_REGULAR
             else if prtyclass = 3 then SCHED_CLASS_TIMECRIT
             else if prtyclass = 4 then SCHED_CLASS_SERVER
             else SCHED_CLASS_REGULAR);
          level0 = (word_of_nat ((unat prtylevel + 31) div 2) :: u8);
          level = (if level0 > 31 then 31 else level0)
      in sched_class * word_of_nat PRIO_LEVELS_PER_CLASS + level)"

text \<open>
  A caller that holds a signed delta (\<open>apply_priority_change\<close> passes the \<open>int\<close>
  \<open>new_prio - 16\<close>) has it converted to \<open>uint8_t\<close> at the call, that is reduced
  modulo 256.
\<close>

definition delta_arg :: "int \<Rightarrow> u8" where
  "delta_arg delta = word_of_int delta"

text \<open>The level the specification names: \<open>(delta + 31) / 2\<close> clamped into \<open>[0, 31]\<close>.\<close>

definition spec_level :: "int \<Rightarrow> int" where
  "spec_level delta = max 0 (min 31 ((delta + 31) div 2))"

section \<open>Threads and run queues (include/os3/scheduler.h)\<close>

definition THREAD_STATE_READY :: u8 where "THREAD_STATE_READY = 0"
definition THREAD_STATE_RUNNING :: u8 where "THREAD_STATE_RUNNING = 1"
definition THREAD_STATE_BLOCKED :: u8 where "THREAD_STATE_BLOCKED = 2"
definition THREAD_STATE_ZOMBIE :: u8 where "THREAD_STATE_ZOMBIE = 3"
definition THREAD_STATE_SUSPENDED :: u8 where "THREAD_STATE_SUSPENDED = 4"

definition THREAD_FLAG_NEED_RESCHED :: u32 where "THREAD_FLAG_NEED_RESCHED = push_bit 2 1"
definition THREAD_FLAG_MIGRATING :: u32 where "THREAD_FLAG_MIGRATING = push_bit 3 1"
definition THREAD_FLAG_BOUND :: u32 where "THREAD_FLAG_BOUND = push_bit 4 1"

text \<open>
  \<open>thread_t\<close>, with the fields the scheduler paths below read or write. A thread pointer
  is the index of the thread in the thread store of the kernel state; a pointer that the
  source tests against \<open>NULL\<close> is an \<open>option\<close>.
\<close>

record thread =
  sched_class :: u8
  base_priority :: u8
  dynamic_priority :: u8
  state :: u8
  flags :: u32
  timeslice :: u32
  timeslice_max :: u32
  total_runtime :: u64
  last_run :: u64
  cpu_affinity :: u64
  last_cpu :: u32
  preferred_cpu :: u32
  context_switches :: u64
  voluntary_switches :: u64
  involuntary_switches :: u64

text \<open>
  \<open>prio_queue_t\<close>: the intrusive list \<open>queue\<close> is the list of the threads linked on it,
  head first; \<open>count\<close> is the separate counter the source maintains by hand.
\<close>

record prio_queue =
  queue :: "nat list"
  count_q :: u32

record run_queue =
  queues :: "nat \<Rightarrow> nat \<Rightarrow> prio_queue"
  active_bitmap :: "nat \<Rightarrow> u32"
  class_bitmap :: u32
  nr_running :: u32
  nr_switches :: u64
  current :: "nat option"
  idle :: "nat option"
  clock :: u64
  tick_count :: u64

text \<open>The bit the source uses for level \<open>p\<close>: \<open>1 << (31 - p)\<close>.\<close>

definition level_bit :: "nat \<Rightarrow> u32" where
  "level_bit p = push_bit (31 - p) 1"

definition class_bit :: "nat \<Rightarrow> u32" where
  "class_bit c = push_bit c 1"

text \<open>\<open>find_first_bit\<close>, the portable branch; \<open>__builtin_ffs(word) - 1\<close> is the same index.\<close>

definition find_first_bit :: "u32 \<Rightarrow> int" where
  "find_first_bit word =
     (if word = 0 then - 1
      else
        let pos = (0::int);
            (pos, word) = (if word AND 0xFFFF = 0 then (pos + 16, drop_bit 16 word) else (pos, word));
            (pos, word) = (if word AND 0xFF = 0 then (pos + 8, drop_bit 8 word) else (pos, word));
            (pos, word) = (if word AND 0xF = 0 then (pos + 4, drop_bit 4 word) else (pos, word));
            (pos, word) = (if word AND 0x3 = 0 then (pos + 2, drop_bit 2 word) else (pos, word));
            pos = (if word AND 0x1 = 0 then pos + 1 else pos)
        in pos)"

text \<open>
  \<open>pick_next_thread\<close>. \<open>pick_level\<close> is the inner loop \<open>for (; p < PRIO_LEVELS_PER_CLASS; p++)\<close>:
  it tests bit \<open>31 - p\<close> of \<open>active_bitmap[c]\<close> and looks at \<open>queues[c][31 - p]\<close>.
  \<open>pick_class rq n\<close> is the outer loop for the classes \<open>n - 1\<close> down to \<open>0\<close>.
\<close>

function pick_level :: "run_queue \<Rightarrow> nat \<Rightarrow> nat \<Rightarrow> nat option" where
  "pick_level rq c p =
     (if p < PRIO_LEVELS_PER_CLASS then
        (if active_bitmap rq c AND push_bit (31 - p) 1 = 0 then pick_level rq c (p + 1)
         else case queue (queues rq c (31 - p)) of
                [] \<Rightarrow> pick_level rq c (p + 1)
              | next # _ \<Rightarrow> Some next)
      else None)"
  by pat_completeness auto
termination
  by (relation "measure (\<lambda>(rq, c, p). PRIO_LEVELS_PER_CLASS - p)") auto

fun pick_class :: "run_queue \<Rightarrow> nat \<Rightarrow> nat option" where
  "pick_class rq 0 = None"
| "pick_class rq (Suc c) =
     (if class_bitmap rq AND push_bit c 1 = 0 then pick_class rq c
      else
        let p = find_first_bit (active_bitmap rq c) in
        if p < 0 then pick_class rq c
        else case pick_level rq c (nat p) of
               Some next \<Rightarrow> Some next
             | None \<Rightarrow> pick_class rq c)"

definition pick_next_thread :: "run_queue \<Rightarrow> nat option" where
  "pick_next_thread rq =
     (if nr_running rq = 0 then idle rq
      else case pick_class rq NUM_SCHED_CLASSES of
             Some next \<Rightarrow> Some next
           | None \<Rightarrow> idle rq)"

text \<open>
  The queue bookkeeping that \<open>enqueue_thread\<close> and \<open>schedule\<close> perform under the run-queue
  lock: \<open>list_add_tail\<close>, \<open>pq->count++\<close>, \<open>rq->nr_running++\<close> and the two bitmap bits.
\<close>

definition rq_add_tail :: "run_queue \<Rightarrow> nat \<Rightarrow> nat \<Rightarrow> nat \<Rightarrow> run_queue" where
  "rq_add_tail rq c p t =
     (let pq = queues rq c p;
          pq' = pq\<lparr>queue := queue pq @ [t], count_q := count_q pq + 1\<rparr>
      in rq\<lparr>queues := (queues rq)(c := (queues rq c)(p := pq')),
            nr_running := nr_running rq + 1,
            active_bitmap := (active_bitmap rq)(c := active_bitmap rq c OR level_bit p),
            class_bitmap := class_bitmap rq OR class_bit c\<rparr>)"

text \<open>
  \<open>list_del_init(&thread->run_list)\<close> unlinks the thread from the list it is linked on.
\<close>

definition rq_unlink :: "nat \<Rightarrow> run_queue \<Rightarrow> run_queue" where
  "rq_unlink t rq =
     rq\<lparr>queues := (\<lambda>c p. (queues rq c p)\<lparr>queue := removeAll t (queue (queues rq c p))\<rparr>)\<rparr>"

text \<open>
  The counters and bitmaps after the unlink, as \<open>dequeue_thread\<close> and \<open>schedule\<close> update
  them: \<open>pq->count--\<close>, \<open>rq->nr_running--\<close>, and when the level became empty its bit is
  cleared and, when the class became empty, the class bit.
\<close>

definition rq_account_del :: "run_queue \<Rightarrow> nat \<Rightarrow> nat \<Rightarrow> run_queue" where
  "rq_account_del rq c p =
     (let pq = queues rq c p;
          pq' = pq\<lparr>count_q := count_q pq - 1\<rparr>;
          rq1 = rq\<lparr>queues := (queues rq)(c := (queues rq c)(p := pq')),
                    nr_running := nr_running rq - 1\<rparr>
      in if count_q pq' = 0 then
           let rq2 = rq1\<lparr>active_bitmap :=
                           (active_bitmap rq1)(c := active_bitmap rq1 c AND NOT (level_bit p))\<rparr>
           in if active_bitmap rq2 c = 0
              then rq2\<lparr>class_bitmap := class_bitmap rq2 AND NOT (class_bit c)\<rparr>
              else rq2
         else rq1)"

text \<open>
  The same bookkeeping as the migration step of \<open>trigger_load_balance\<close> writes it: only
  the level bit is cleared.
\<close>

definition rq_account_migrate :: "run_queue \<Rightarrow> nat \<Rightarrow> nat \<Rightarrow> run_queue" where
  "rq_account_migrate rq c p =
     (let pq = queues rq c p;
          pq' = pq\<lparr>count_q := count_q pq - 1\<rparr>;
          rq1 = rq\<lparr>queues := (queues rq)(c := (queues rq c)(p := pq')),
                    nr_running := nr_running rq - 1\<rparr>
      in if count_q pq' = 0 then
           rq1\<lparr>active_bitmap :=
                 (active_bitmap rq1)(c := active_bitmap rq1 c AND NOT (level_bit p))\<rparr>
         else rq1)"

text \<open>
  The documented run-queue invariant: \<open>nr_running\<close> is the sum of the counts, the bit
  of level \<open>l\<close> is set in \<open>active_bitmap[c]\<close> iff \<open>queues[c][l].count > 0\<close>, and bit \<open>c\<close>
  is set in \<open>class_bitmap\<close> iff \<open>active_bitmap[c]\<close> is non-zero.
\<close>

definition sum_counts :: "run_queue \<Rightarrow> nat" where
  "sum_counts rq =
     (\<Sum>c\<leftarrow>[0..<NUM_SCHED_CLASSES]. \<Sum>l\<leftarrow>[0..<PRIO_LEVELS_PER_CLASS]. unat (count_q (queues rq c l)))"

definition rq_invariant :: "run_queue \<Rightarrow> bool" where
  "rq_invariant rq =
     (unat (nr_running rq) = sum_counts rq
      \<and> list_all (\<lambda>c. list_all (\<lambda>l.
            (active_bitmap rq c AND level_bit l \<noteq> 0) = (count_q (queues rq c l) \<noteq> 0))
          [0..<PRIO_LEVELS_PER_CLASS]) [0..<NUM_SCHED_CLASSES]
      \<and> list_all (\<lambda>c. (class_bitmap rq AND class_bit c \<noteq> 0) = (active_bitmap rq c \<noteq> 0))
          [0..<NUM_SCHED_CLASSES])"

section \<open>Kernel state (include/os3/smp.h, kernel/sched/scheduler.c)\<close>

text \<open>
  The global data the scheduler paths touch: the thread store, \<open>scheduler.runqueues[]\<close>,
  \<open>smp_info\<close> (\<open>cpus[]\<close>, \<open>cpu_count\<close>, \<open>online_mask[]\<close>), the per-CPU
  \<open>preempt_counter\<close>, the interrupts handed to the local APIC, and the two fields of the
  calling process that the critical-section calls use. A result \<open>None\<close> of a kernel
  function stands for a run that leaves defined behaviour: the dereference of a \<open>NULL\<close>
  pointer, or a shift by 64 bits or more. The run-queue locks are not
  part of the state: every function below is one sequential run of its source.
  The executing CPU (\<open>smp_processor_id()\<close>) and the clock value (\<open>get_time_ns()\<close>) are
  arguments.
\<close>

record cpu_info =
  apic_id :: u32
  current_thread :: "nat option"

record kernel =
  threads :: "nat \<Rightarrow> thread"
  runqueues :: "nat \<Rightarrow> run_queue option"
  cpus :: "nat \<Rightarrow> cpu_info option"
  cpu_count :: u32
  online_mask :: "nat \<Rightarrow> u32"
  preempt_counter :: "nat \<Rightarrow> int"
  ipis_sent :: "(u32 \<times> u32) list"
  critsec_count :: u32
  critsec_lock :: u32

definition upd_thread :: "kernel \<Rightarrow> nat \<Rightarrow> (thread \<Rightarrow> thread) \<Rightarrow> kernel" where
  "upd_thread k t f = k\<lparr>threads := (threads k)(t := f (threads k t))\<rparr>"

definition upd_rq :: "kernel \<Rightarrow> nat \<Rightarrow> (run_queue \<Rightarrow> run_queue) \<Rightarrow> kernel" where
  "upd_rq k cpu f = k\<lparr>runqueues := (runqueues k)(cpu := map_option f (runqueues k cpu))\<rparr>"

definition cpu_isset :: "nat \<Rightarrow> (nat \<Rightarrow> u32) \<Rightarrow> bool" where
  "cpu_isset cpu msk = (msk (cpu div 32) AND push_bit (cpu mod 32) 1 \<noteq> 0)"

subsection \<open>Inter-processor interrupts (kernel/smp/smp.c)\<close>

definition IPI_RESCHEDULE :: u32 where "IPI_RESCHEDULE = 0x01"
definition IPI_TLB_FLUSH :: u32 where "IPI_TLB_FLUSH = 0x02"
definition IPI_CALL_FUNC :: u32 where "IPI_CALL_FUNC = 0x03"
definition IPI_STOP :: u32 where "IPI_STOP = 0x04"
definition IPI_NMI :: u32 where "IPI_NMI = 0x05"

definition VECTOR_IPI_RESCHED :: u32 where "VECTOR_IPI_RESCHED = 0xFA"
definition VECTOR_IPI_CALL :: u32 where "VECTOR_IPI_CALL = 0xF9"
definition VECTOR_IPI_TLB :: u32 where "VECTOR_IPI_TLB = 0xF8"
definition VECTOR_IPI_STOP :: u32 where "VECTOR_IPI_STOP = 0xF7"

text \<open>
  \<open>lapic_send_ipi(dest_apic_id, vector)\<close> writes the interrupt command register of the
  local APIC; the state records the interrupt as sent.
\<close>

definition lapic_send_ipi :: "kernel \<Rightarrow> u32 \<Rightarrow> u32 \<Rightarrow> kernel" where
  "lapic_send_ipi k dest_apic_id vector = k\<lparr>ipis_sent := ipis_sent k @ [(dest_apic_id, vector)]\<rparr>"

text \<open>The \<open>switch (ipi_type)\<close> of \<open>smp_send_ipi\<close>; \<open>None\<close> is its \<open>default: return\<close>.\<close>

definition ipi_vector :: "u32 \<Rightarrow> u32 option" where
  "ipi_vector ipi_type =
     (if ipi_type = IPI_RESCHEDULE then Some VECTOR_IPI_RESCHED
      else if ipi_type = IPI_TLB_FLUSH then Some VECTOR_IPI_TLB
      else if ipi_type = IPI_CALL_FUNC then Some VECTOR_IPI_CALL
      else if ipi_type = IPI_STOP then Some VECTOR_IPI_STOP
      else None)"

definition smp_send_ipi :: "kernel \<Rightarrow> u32 \<Rightarrow> u32 \<Rightarrow> kernel option" where
  "smp_send_ipi k cpu_id ipi_type =
     (if cpu_id \<ge> cpu_count k then Some k
      else case ipi_vector ipi_type of
             None \<Rightarrow> Some k
           | Some vector \<Rightarrow>
               (case cpus k (unat cpu_id) of
                  None \<Rightarrow> None
                | Some ci \<Rightarrow> Some (lapic_send_ipi k (apic_id ci) vector)))"

subsection \<open>Current thread and the reschedule flag\<close>

text \<open>\<open>current_thread()\<close> followed by a dereference of the result.\<close>

definition current_thread_of :: "kernel \<Rightarrow> nat \<Rightarrow> nat option" where
  "current_thread_of k this_cpu =
     (case cpus k this_cpu of None \<Rightarrow> None | Some ci \<Rightarrow> current_thread ci)"

definition set_need_resched :: "kernel \<Rightarrow> nat \<Rightarrow> kernel option" where
  "set_need_resched k this_cpu =
     (case current_thread_of k this_cpu of
        None \<Rightarrow> None
      | Some t \<Rightarrow> Some (upd_thread k t (\<lambda>th. th\<lparr>flags := flags th OR THREAD_FLAG_NEED_RESCHED\<rparr>)))"

definition need_resched :: "kernel \<Rightarrow> nat \<Rightarrow> bool option" where
  "need_resched k this_cpu =
     (case current_thread_of k this_cpu of
        None \<Rightarrow> None
      | Some t \<Rightarrow> Some (flags (threads k t) AND THREAD_FLAG_NEED_RESCHED \<noteq> 0))"

subsection \<open>enqueue_thread and dequeue_thread\<close>

text \<open>
  The mask \<open>1ULL << cpu\<close>. The shift has a value for \<open>cpu < 64\<close> only: C leaves a shift by
  the width of the type or more undefined, and CPU numbers go up to \<open>MAX_CPUS = 256\<close>. The
  result \<open>None\<close> is the undefined shift; the functions that evaluate the mask pass it on
  as their own failure.
\<close>

definition cpu_bit :: "nat \<Rightarrow> u64 option" where
  "cpu_bit cpu = (if cpu < 64 then Some (push_bit cpu 1) else None)"

text \<open>
  The loop \<open>for (cpu = 0; cpu < smp_info.cpu_count; cpu++)\<close> of \<open>enqueue_thread\<close> that
  breaks at the first CPU whose bit is set in the affinity mask; it ends with
  \<open>cpu = cpu_count\<close> when there is none.
\<close>

function first_allowed_cpu :: "u64 \<Rightarrow> nat \<Rightarrow> nat \<Rightarrow> nat option" where
  "first_allowed_cpu affinity ncpus cpu =
     (if cpu < ncpus then
        (case cpu_bit cpu of
           None \<Rightarrow> None
         | Some b \<Rightarrow>
             if affinity AND b \<noteq> 0 then Some cpu
             else first_allowed_cpu affinity ncpus (cpu + 1))
      else Some cpu)"
  by pat_completeness auto
termination
  by (relation "measure (\<lambda>(affinity, ncpus, cpu). ncpus - cpu)") auto

text \<open>
  The CPU selection at the head of \<open>enqueue_thread\<close>: \<open>preferred_cpu\<close> when its bit is set
  in the affinity mask, else the result of the loop. Neither \<open>smp_info.online_mask\<close> nor
  the run-queue pointer is read here.
\<close>

definition enqueue_select_cpu :: "kernel \<Rightarrow> thread \<Rightarrow> nat option" where
  "enqueue_select_cpu k th =
     (let cpu = unat (preferred_cpu th) in
      case cpu_bit cpu of
        None \<Rightarrow> None
      | Some b \<Rightarrow>
          if cpu_affinity th AND b = 0
          then first_allowed_cpu (cpu_affinity th) (unat (cpu_count k)) 0
          else Some cpu)"

text \<open>
  \<open>enqueue_thread\<close>. \<open>rq = scheduler.runqueues[cpu]\<close> is dereferenced without a test, so
  a \<open>NULL\<close> run queue is the failure \<open>None\<close>.
\<close>

definition enqueue_thread :: "kernel \<Rightarrow> nat \<Rightarrow> nat \<Rightarrow> kernel option" where
  "enqueue_thread k this_cpu t =
     (let th = threads k t in
      case enqueue_select_cpu k th of
        None \<Rightarrow> None
      | Some cpu \<Rightarrow>
         (case runqueues k cpu of
           None \<Rightarrow> None
         | Some rq \<Rightarrow>
             let c = unat (sched_class th);
                 p = unat (dynamic_priority th) mod PRIO_LEVELS_PER_CLASS;
                 k1 = upd_rq k cpu (\<lambda>rq. rq_add_tail rq c p t);
                 k2 = upd_thread k1 t (\<lambda>th. th\<lparr>state := THREAD_STATE_READY\<rparr>)
             in case current rq of
                  None \<Rightarrow> Some k2
                | Some cur \<Rightarrow>
                    if dynamic_priority (threads k2 t) > dynamic_priority (threads k2 cur) then
                      (case set_need_resched k2 this_cpu of
                         None \<Rightarrow> None
                       | Some k3 \<Rightarrow>
                           if cpu \<noteq> this_cpu
                           then smp_send_ipi k3 (word_of_nat cpu) IPI_RESCHEDULE
                           else Some k3)
                    else Some k2))"

text \<open>\<open>list_del_init\<close> on the kernel state: the thread leaves the list that holds it.\<close>

definition list_del_init :: "kernel \<Rightarrow> nat \<Rightarrow> kernel" where
  "list_del_init k t = k\<lparr>runqueues := (\<lambda>cpu. map_option (rq_unlink t) (runqueues k cpu))\<rparr>"

definition dequeue_thread :: "kernel \<Rightarrow> nat \<Rightarrow> kernel option" where
  "dequeue_thread k t =
     (let th = threads k t;
          cpu = unat (last_cpu th)
      in case runqueues k cpu of
           None \<Rightarrow> None
         | Some rq \<Rightarrow>
             let c = unat (sched_class th);
                 p = unat (dynamic_priority th) mod PRIO_LEVELS_PER_CLASS;
                 k1 = list_del_init k t
             in Some (upd_rq k1 cpu (\<lambda>rq. rq_account_del rq c p)))"

subsection \<open>schedule\<close>

text \<open>The block \<open>if (prev) { ... }\<close> of \<open>schedule\<close> for the outgoing thread \<open>prev\<close>.\<close>

definition schedule_prev :: "kernel \<Rightarrow> nat \<Rightarrow> u64 \<Rightarrow> nat \<Rightarrow> kernel" where
  "schedule_prev k cpu now prev =
     (let k1 = upd_thread k prev (\<lambda>th. th\<lparr>flags := flags th AND NOT THREAD_FLAG_NEED_RESCHED\<rparr>);
          k2 = (if last_run (threads k1 prev) \<noteq> 0
                then upd_thread k1 prev
                       (\<lambda>th. th\<lparr>total_runtime := total_runtime th + (now - last_run th)\<rparr>)
                else k1)
      in if state (threads k2 prev) = THREAD_STATE_RUNNING then
           let k3 = upd_thread k2 prev (\<lambda>th. th\<lparr>state := THREAD_STATE_READY\<rparr>);
               c = unat (sched_class (threads k3 prev));
               p = unat (dynamic_priority (threads k3 prev)) mod PRIO_LEVELS_PER_CLASS
           in upd_rq k3 cpu (\<lambda>rq. rq_add_tail rq c p prev)
         else k2)"

text \<open>The block that takes \<open>next\<close> off its queue.\<close>

definition schedule_dequeue_next :: "kernel \<Rightarrow> nat \<Rightarrow> nat \<Rightarrow> kernel" where
  "schedule_dequeue_next k cpu nxt =
     (let c = unat (sched_class (threads k nxt));
          p = unat (dynamic_priority (threads k nxt)) mod PRIO_LEVELS_PER_CLASS;
          k1 = list_del_init k nxt
      in upd_rq k1 cpu (\<lambda>rq. rq_account_del rq c p))"

text \<open>The statistics of the branch \<open>if (prev != next)\<close>.\<close>

definition schedule_switch_stats :: "kernel \<Rightarrow> nat \<Rightarrow> nat option \<Rightarrow> nat \<Rightarrow> kernel" where
  "schedule_switch_stats k cpu prev nxt =
     (let k1 = upd_rq k cpu (\<lambda>rq. rq\<lparr>nr_switches := nr_switches rq + 1\<rparr>);
          k2 = upd_thread k1 nxt (\<lambda>th. th\<lparr>context_switches := context_switches th + 1\<rparr>)
      in case prev of
           None \<Rightarrow> k2
         | Some pv \<Rightarrow>
             if state (threads k2 pv) = THREAD_STATE_RUNNING
             then upd_thread k2 pv (\<lambda>th. th\<lparr>involuntary_switches := involuntary_switches th + 1\<rparr>)
             else upd_thread k2 pv (\<lambda>th. th\<lparr>voluntary_switches := voluntary_switches th + 1\<rparr>))"

text \<open>
  The first part of \<open>schedule\<close> under the run-queue lock: the clock is stored and the
  outgoing thread \<open>prev = rq->current\<close>, if there is one, is accounted and re-enqueued.
\<close>

definition schedule_outgoing :: "kernel \<Rightarrow> nat \<Rightarrow> u64 \<Rightarrow> nat option \<Rightarrow> kernel" where
  "schedule_outgoing k cpu now prev =
     (let k1 = upd_rq k cpu (\<lambda>rq. rq\<lparr>clock := now\<rparr>)
      in case prev of None \<Rightarrow> k1 | Some pv \<Rightarrow> schedule_prev k1 cpu now pv)"

text \<open>
  The second part, after \<open>next = pick_next_thread(rq)\<close>: \<open>next\<close> is taken off its queue
  unless it is the idle thread or not Ready, becomes the running thread of the run queue
  and of the CPU (\<open>ci\<close> is the CPU's \<open>cpu_info_t\<close>), and the switch is counted.
\<close>

definition schedule_incoming ::
    "kernel \<Rightarrow> nat \<Rightarrow> u64 \<Rightarrow> nat option \<Rightarrow> nat \<Rightarrow> cpu_info \<Rightarrow> kernel" where
  "schedule_incoming k2 cpu now prev nxt ci =
     (let k3 = (if Some nxt \<noteq> Option.bind (runqueues k2 cpu) idle
                  \<and> state (threads k2 nxt) = THREAD_STATE_READY
               then schedule_dequeue_next k2 cpu nxt else k2);
          k4 = upd_thread k3 nxt
                 (\<lambda>th. th\<lparr>state := THREAD_STATE_RUNNING, last_run := now,
                          last_cpu := word_of_nat cpu,
                          timeslice := timeslice_max th\<rparr>);
          k5 = upd_rq k4 cpu (\<lambda>rq. rq\<lparr>current := Some nxt\<rparr>);
          k6 = k5\<lparr>cpus := (cpus k5)(cpu := Some (ci\<lparr>current_thread := Some nxt\<rparr>))\<rparr>
      in if prev \<noteq> Some nxt then schedule_switch_stats k6 cpu prev nxt else k6)"

definition schedule_body :: "kernel \<Rightarrow> nat \<Rightarrow> u64 \<Rightarrow> kernel option" where
  "schedule_body k cpu now =
     (case runqueues k cpu of
        None \<Rightarrow> None
      | Some rq0 \<Rightarrow>
          let prev = current rq0;
              k2 = schedule_outgoing k cpu now prev
          in case Option.bind (runqueues k2 cpu) pick_next_thread of
               None \<Rightarrow> None
             | Some nxt \<Rightarrow>
                 (case cpus k2 cpu of
                    None \<Rightarrow> None
                  | Some ci \<Rightarrow> Some (schedule_incoming k2 cpu now prev nxt ci)))"

definition schedule :: "kernel \<Rightarrow> nat \<Rightarrow> u64 \<Rightarrow> kernel option" where
  "schedule k this_cpu now =
     (if preempt_counter k this_cpu > 0 then
        (case current_thread_of k this_cpu of
           None \<Rightarrow> None
         | Some t \<Rightarrow>
             if state (threads k t) = THREAD_STATE_RUNNING then Some k
             else schedule_body k this_cpu now)
      else schedule_body k this_cpu now)"

subsection \<open>Preemption counter\<close>

definition preempt_disable :: "kernel \<Rightarrow> nat \<Rightarrow> kernel" where
  "preempt_disable k this_cpu =
     k\<lparr>preempt_counter := (preempt_counter k)(this_cpu := preempt_counter k this_cpu + 1)\<rparr>"

definition preempt_enable :: "kernel \<Rightarrow> nat \<Rightarrow> u64 \<Rightarrow> kernel option" where
  "preempt_enable k this_cpu now =
     (let k1 = k\<lparr>preempt_counter := (preempt_counter k)(this_cpu := preempt_counter k this_cpu - 1)\<rparr>
      in if preempt_counter k1 this_cpu = 0 then
           (case need_resched k1 this_cpu of
              None \<Rightarrow> None
            | Some True \<Rightarrow> schedule k1 this_cpu now
            | Some False \<Rightarrow> Some k1)
         else Some k1)"

definition preempt_count :: "kernel \<Rightarrow> nat \<Rightarrow> int" where
  "preempt_count k this_cpu = preempt_counter k this_cpu"

subsection \<open>Critical sections (os3/api/doscalls_thread.c)\<close>

datatype apiret = NO_ERROR | ERROR_CRITSEC_UNDERFLOW

definition DosExitCritSec :: "kernel \<Rightarrow> nat \<Rightarrow> u64 \<Rightarrow> (apiret \<times> kernel) option" where
  "DosExitCritSec k this_cpu now =
     (if critsec_count k = 0 then Some (ERROR_CRITSEC_UNDERFLOW, k)
      else
        case preempt_enable (k\<lparr>critsec_count := critsec_count k - 1\<rparr>) this_cpu now of
          None \<Rightarrow> None
        | Some k1 \<Rightarrow> Some (NO_ERROR, k1\<lparr>critsec_lock := spin_unlock (critsec_lock k1)\<rparr>))"

subsection \<open>Load balancing\<close>

text \<open>The loop of \<open>trigger_load_balance\<close> that looks for the busiest CPU.\<close>

function find_busiest :: "kernel \<Rightarrow> nat \<Rightarrow> nat \<Rightarrow> u64 \<Rightarrow> nat \<Rightarrow> (u64 \<times> nat) option" where
  "find_busiest k this_cpu cpu max_load busiest_cpu =
     (if cpu < unat (cpu_count k) then
        (if cpu = this_cpu then find_busiest k this_cpu (cpu + 1) max_load busiest_cpu
         else if \<not> cpu_isset cpu (online_mask k)
         then find_busiest k this_cpu (cpu + 1) max_load busiest_cpu
         else case runqueues k cpu of
                None \<Rightarrow> None
              | Some rq \<Rightarrow>
                  let load = (ucast (nr_running rq) :: u64) in
                  if load > max_load + 1
                  then find_busiest k this_cpu (cpu + 1) load cpu
                  else find_busiest k this_cpu (cpu + 1) max_load busiest_cpu)
      else Some (max_load, busiest_cpu))"
  by pat_completeness auto
termination
  by (relation "measure (\<lambda>(k, this_cpu, cpu, max_load, busiest_cpu). unat (cpu_count k) - cpu)")
     auto

text \<open>
  The three tests of the body of \<open>list_for_each_entry\<close>; \<open>None\<close> is the undefined shift
  \<open>1ULL << this_cpu\<close> of the first one.
\<close>

definition migratable :: "kernel \<Rightarrow> nat \<Rightarrow> u64 \<Rightarrow> nat \<Rightarrow> bool option" where
  "migratable k this_cpu now t =
     (let th = threads k t in
      case cpu_bit this_cpu of
        None \<Rightarrow> None
      | Some b \<Rightarrow>
          Some (cpu_affinity th AND b \<noteq> 0
                \<and> flags th AND THREAD_FLAG_BOUND = 0
                \<and> \<not> (now - last_run th < 1000000)))"

text \<open>
  \<open>list_for_each_entry\<close> over one queue, up to the first thread that passes the three
  tests: \<open>Some (Some t)\<close> is that thread, \<open>Some None\<close> a queue without one.
\<close>

fun scan_queue :: "kernel \<Rightarrow> nat \<Rightarrow> u64 \<Rightarrow> nat list \<Rightarrow> nat option option" where
  "scan_queue k this_cpu now [] = Some None"
| "scan_queue k this_cpu now (t # ts) =
     (case migratable k this_cpu now t of
        None \<Rightarrow> None
      | Some ok \<Rightarrow> if ok then Some (Some t) else scan_queue k this_cpu now ts)"

text \<open>The loops over the levels \<open>p\<close> and the classes \<open>c\<close>, left when a thread was found.\<close>

function balance_scan_p ::
  "kernel \<Rightarrow> run_queue \<Rightarrow> nat \<Rightarrow> u64 \<Rightarrow> nat \<Rightarrow> nat \<Rightarrow> (nat \<times> nat) option option" where
  "balance_scan_p k rq this_cpu now c p =
     (if p < PRIO_LEVELS_PER_CLASS then
        (case scan_queue k this_cpu now (queue (queues rq c p)) of
           None \<Rightarrow> None
         | Some (Some t) \<Rightarrow> Some (Some (p, t))
         | Some None \<Rightarrow> balance_scan_p k rq this_cpu now c (p + 1))
      else Some None)"
  by pat_completeness auto
termination
  by (relation "measure (\<lambda>(k, rq, this_cpu, now, c, p). PRIO_LEVELS_PER_CLASS - p)") auto

function balance_scan_c ::
  "kernel \<Rightarrow> run_queue \<Rightarrow> nat \<Rightarrow> u64 \<Rightarrow> nat \<Rightarrow> (nat \<times> nat \<times> nat) option option" where
  "balance_scan_c k rq this_cpu now c =
     (if c < NUM_SCHED_CLASSES then
        (case balance_scan_p k rq this_cpu now c 0 of
           None \<Rightarrow> None
         | Some (Some (p, t)) \<Rightarrow> Some (Some (c, p, t))
         | Some None \<Rightarrow> balance_scan_c k rq this_cpu now (c + 1))
      else Some None)"
  by pat_completeness auto
termination
  by (relation "measure (\<lambda>(k, rq, this_cpu, now, c). NUM_SCHED_CLASSES - c)") auto

text \<open>
  The migration step: the thread \<open>t\<close> found on \<open>queues[c][p]\<close> of the busiest run queue
  is detached and enqueued on this CPU.
\<close>

definition migrate_step :: "kernel \<Rightarrow> nat \<Rightarrow> nat \<Rightarrow> nat \<Rightarrow> nat \<Rightarrow> nat \<Rightarrow> kernel option" where
  "migrate_step k this_cpu busiest_cpu c p t =
     (let k1 = list_del_init k t;
          k2 = upd_rq k1 busiest_cpu (\<lambda>rq. rq_account_migrate rq c p);
          k3 = upd_thread k2 t
                 (\<lambda>th. th\<lparr>preferred_cpu := word_of_nat this_cpu,
                          flags := flags th OR THREAD_FLAG_MIGRATING\<rparr>)
      in case enqueue_thread k3 this_cpu t of
           None \<Rightarrow> None
         | Some k4 \<Rightarrow>
             Some (upd_thread k4 t (\<lambda>th. th\<lparr>flags := flags th AND NOT THREAD_FLAG_MIGRATING\<rparr>)))"

definition trigger_load_balance :: "kernel \<Rightarrow> nat \<Rightarrow> u64 \<Rightarrow> kernel option" where
  "trigger_load_balance k this_cpu now =
     (case runqueues k this_cpu of
        None \<Rightarrow> None
      | Some this_rq \<Rightarrow>
          let this_load = (ucast (nr_running this_rq) :: u64) in
          case find_busiest k this_cpu 0 this_load this_cpu of
            None \<Rightarrow> None
          | Some (max_load, busiest_cpu) \<Rightarrow>
              if busiest_cpu = this_cpu then Some k
              else case runqueues k busiest_cpu of
                     None \<Rightarrow> None
                   | Some busiest_rq \<Rightarrow>
                       (case balance_scan_c k busiest_rq this_cpu now 0 of
                          None \<Rightarrow> None
                        | Some None \<Rightarrow> Some k
                        | Some (Some (c, p, t)) \<Rightarrow>
                            migrate_step k this_cpu busiest_cpu c p t))"

section \<open>NUMA page allocator (kernel/mm/numa.c)\<close>

definition MAX_NUMA_NODES :: nat where "MAX_NUMA_NODES = 64"

text \<open>
  The header \<open>os3/memory.h\<close> is not part of the sources; the two constants the allocator
  takes from it are parameters of the model.
\<close>

record memory_h =
  MAX_ORDER :: nat
  PAGE_FLAG_BUDDY :: u32

text \<open>
  \<open>struct page\<close> with the fields \<open>numa.c\<close> uses. A page pointer is the page-frame number
  (\<open>page + n\<close> is \<open>pfn + n\<close>); \<open>page_to_virt\<close> and \<open>virt_to_page\<close> are inverse to each
  other, so an allocation result is represented by the page frame as well.
\<close>

record page =
  page_flags :: u32
  page_order :: u32
  numa_node :: u32

text \<open>
  \<open>numa_mem_info_t\<close>: each free list is the list of the page frames linked on it, head
  first; \<open>free_count\<close> is the counter the source keeps beside it.
\<close>

record numa_mem_info =
  start_pfn :: u64
  end_pfn :: u64
  free_pages :: u64
  total_pages :: u64
  free_list :: "nat \<Rightarrow> u64 list"
  free_count :: "nat \<Rightarrow> u32"

record numa_topology =
  num_nodes :: u32
  nodes :: "nat \<Rightarrow> numa_mem_info"
  distance :: "nat \<Rightarrow> nat \<Rightarrow> u8"
  fallback :: "nat \<Rightarrow> nat \<Rightarrow> u8"
  pages :: "u64 \<Rightarrow> page"
  numa_enabled :: bool

text \<open>
  What an allocation call hands back: a page, \<open>NULL\<close>, or (with NUMA disabled) the result
  of the regular allocator \<open>alloc_pages(order)\<close>, which is outside these sources.
\<close>

datatype alloc_result = Page u64 | Null | Regular_alloc

definition upd_node :: "numa_topology \<Rightarrow> nat \<Rightarrow> (numa_mem_info \<Rightarrow> numa_mem_info) \<Rightarrow> numa_topology" where
  "upd_node st node f = st\<lparr>nodes := (nodes st)(node := f (nodes st node))\<rparr>"

text \<open>
  The block both allocation functions share: with \<open>free_count[order] > 0\<close> the first entry
  of \<open>free_list[order]\<close> is unlinked and the two counters are lowered. \<open>None\<close> is the read
  of the first entry of an empty list.
\<close>

definition take_first :: "numa_mem_info \<Rightarrow> nat \<Rightarrow> (u64 \<times> numa_mem_info) option" where
  "take_first nmi order =
     (case free_list nmi order of
        [] \<Rightarrow> None
      | pg # rest \<Rightarrow>
          Some (pg, nmi\<lparr>free_list := (free_list nmi)(order := rest),
                        free_count := (free_count nmi)(order := free_count nmi order - 1),
                        free_pages := free_pages nmi - push_bit order 1\<rparr>))"

definition numa_alloc_pages_strict ::
    "numa_topology \<Rightarrow> nat \<Rightarrow> nat \<Rightarrow> (alloc_result \<times> numa_topology) option" where
  "numa_alloc_pages_strict st node order =
     (if node \<ge> unat (num_nodes st) then Some (Null, st)
      else
        let nmi = nodes st node in
        if free_count nmi order > 0 then
          (case take_first nmi order of
             None \<Rightarrow> None
           | Some (pg, nmi') \<Rightarrow> Some (Page pg, upd_node st node (\<lambda>_. nmi')))
        else Some (Null, st))"

text \<open>
  The loop \<open>while (i > order)\<close> that splits a block taken from order \<open>i\<close>: each upper half
  \<open>page + (1 << i)\<close> goes to the head of \<open>free_list[i]\<close>.
\<close>

function split_block :: "numa_mem_info \<Rightarrow> u64 \<Rightarrow> nat \<Rightarrow> nat \<Rightarrow> numa_mem_info" where
  "split_block nmi pg i order =
     (if i > order then
        let i' = i - 1;
            buddy = pg + push_bit i' 1;
            nmi' = nmi\<lparr>free_list := (free_list nmi)(i' := buddy # free_list nmi i'),
                       free_count := (free_count nmi)(i' := free_count nmi i' + 1)\<rparr>
        in split_block nmi' pg i' order
      else nmi)"
  by pat_completeness auto
termination
  by (relation "measure (\<lambda>(nmi, pg, i, order). i)") auto

text \<open>
  The loop \<open>for (i = order + 1; i < MAX_ORDER; i++)\<close> of \<open>numa_alloc_pages\<close>; \<open>Some None\<close>
  is the end of the loop without a block.
\<close>

function alloc_split ::
    "memory_h \<Rightarrow> numa_mem_info \<Rightarrow> nat \<Rightarrow> nat \<Rightarrow> (u64 \<times> numa_mem_info) option option" where
  "alloc_split h nmi order i =
     (if i < MAX_ORDER h then
        (if free_count nmi i > 0 then
           (case free_list nmi i of
              [] \<Rightarrow> None
            | pg # rest \<Rightarrow>
                let nmi1 = nmi\<lparr>free_list := (free_list nmi)(i := rest),
                               free_count := (free_count nmi)(i := free_count nmi i - 1)\<rparr>;
                    nmi2 = split_block nmi1 pg i order
                in Some (Some (pg, nmi2\<lparr>free_pages := free_pages nmi2 - push_bit order 1\<rparr>)))
         else alloc_split h nmi order (i + 1))
      else Some None)"
  by pat_completeness auto
termination
  by (relation "measure (\<lambda>(h, nmi, order, i). MAX_ORDER h - i)") auto

text \<open>The loop over the fallback nodes, \<open>for (i = 1; i < numa_topo.num_nodes; i++)\<close>.\<close>

function alloc_fallback ::
    "numa_topology \<Rightarrow> nat \<Rightarrow> nat \<Rightarrow> nat \<Rightarrow> (alloc_result \<times> numa_topology) option" where
  "alloc_fallback st node order i =
     (if i < unat (num_nodes st) then
        let fallback_node = unat (fallback st node i) in
        (case numa_alloc_pages_strict st fallback_node order of
           None \<Rightarrow> None
         | Some (Page pg, st') \<Rightarrow> Some (Page pg, st')
         | Some (_, st') \<Rightarrow> alloc_fallback st node order (i + 1))
      else Some (Null, st))"
  by pat_completeness auto
termination
  by (relation "measure (\<lambda>(st, node, order, i). unat (num_nodes st) - i)") auto

definition numa_alloc_pages ::
    "memory_h \<Rightarrow> numa_topology \<Rightarrow> nat \<Rightarrow> nat \<Rightarrow> (alloc_result \<times> numa_topology) option" where
  "numa_alloc_pages h st node order =
     (if \<not> numa_enabled st then Some (Regular_alloc, st)
      else
        let nmi = nodes st node in
        if free_count nmi order > 0 then
          (case take_first nmi order of
             None \<Rightarrow> None
           | Some (pg, nmi') \<Rightarrow> Some (Page pg, upd_node st node (\<lambda>_. nmi')))
        else
          (case alloc_split h nmi order (order + 1) of
             None \<Rightarrow> None
           | Some (Some (pg, nmi')) \<Rightarrow> Some (Page pg, upd_node st node (\<lambda>_. nmi'))
           | Some None \<Rightarrow> alloc_fallback st node order 1))"

text \<open>
  \<open>list_del(&buddy->list)\<close>: the page leaves the free list it is linked on (none, if it
  is on no list).
\<close>

definition unlink_page :: "numa_topology \<Rightarrow> u64 \<Rightarrow> numa_topology" where
  "unlink_page st pfn =
     st\<lparr>nodes := (\<lambda>n. (nodes st n)\<lparr>free_list := (\<lambda>k. removeAll pfn (free_list (nodes st n) k))\<rparr>)\<rparr>"

text \<open>
  The merge loop of \<open>numa_free_pages\<close>, \<open>while (order < MAX_ORDER - 1)\<close>; it yields the
  state, the page that heads the merged block and the order reached.
\<close>

function merge_buddies ::
    "memory_h \<Rightarrow> numa_topology \<Rightarrow> nat \<Rightarrow> u64 \<Rightarrow> nat \<Rightarrow> numa_topology \<times> u64 \<times> nat" where
  "merge_buddies h st node pg order =
     (if order < MAX_ORDER h - 1 then
        let pfn = pg;
            buddy_pfn = pfn XOR push_bit order 1;
            buddy = pages st buddy_pfn
        in if page_flags buddy AND PAGE_FLAG_BUDDY h \<noteq> 0 \<and> unat (page_order buddy) = order then
             let st1 = unlink_page st buddy_pfn;
                 st2 = upd_node st1 node
                         (\<lambda>nmi. nmi\<lparr>free_count := (free_count nmi)(order := free_count nmi order - 1)\<rparr>);
                 st3 = st2\<lparr>pages := (pages st2)(buddy_pfn :=
                            buddy\<lparr>page_flags := page_flags buddy AND NOT (PAGE_FLAG_BUDDY h)\<rparr>)\<rparr>;
                 pg' = (if buddy_pfn < pfn then buddy_pfn else pg)
             in merge_buddies h st3 node pg' (order + 1)
           else (st, pg, order)
      else (st, pg, order))"
  by pat_completeness auto
termination
  by (relation "measure (\<lambda>(h, st, node, pg, order). MAX_ORDER h - 1 - order)") auto

definition numa_free_pages :: "memory_h \<Rightarrow> numa_topology \<Rightarrow> u64 \<Rightarrow> nat \<Rightarrow> numa_topology" where
  "numa_free_pages h st ptr order =
     (let pg = ptr;
          node = unat (numa_node (pages st pg));
          (st1, pg1, order1) = merge_buddies h st node pg order;
          st2 = st1\<lparr>pages := (pages st1)(pg1 :=
                     (pages st1 pg1)\<lparr>page_order := word_of_nat order1,
                                     page_flags := page_flags (pages st1 pg1) OR PAGE_FLAG_BUDDY h\<rparr>)\<rparr>
      in upd_node st2 node
           (\<lambda>nmi. nmi\<lparr>free_list := (free_list nmi)(order1 := pg1 # free_list nmi order1),
                      free_count := (free_count nmi)(order1 := free_count nmi order1 + 1),
                      free_pages := free_pages nmi + push_bit order1 1\<rparr>))"

text \<open>
  The accounting invariant of a node: \<open>free_pages\<close> is the sum over all orders \<open>k\<close> of
  \<open>free_count[k] * 2^k\<close>.
\<close>

definition counted_pages :: "memory_h \<Rightarrow> numa_mem_info \<Rightarrow> nat" where
  "counted_pages h nmi = (\<Sum>k\<leftarrow>[0..<MAX_ORDER h]. unat (free_count nmi k) * 2 ^ k)"

definition node_invariant :: "memory_h \<Rightarrow> numa_mem_info \<Rightarrow> bool" where
  "node_invariant h nmi = (unat (free_pages nmi) = counted_pages h nmi)"

subsection \<open>Fallback order\<close>

text \<open>
  The inner loop \<open>for (k = 0; k < num_nodes - j - 1; k++)\<close> of the bubble sort on one row
  \<open>fallback[i]\<close>; \<open>d\<close> is the row \<open>distance[i]\<close>, \<open>lim\<close> the bound \<open>num_nodes - j - 1\<close>.
\<close>

function bubble_inner :: "(nat \<Rightarrow> u8) \<Rightarrow> (nat \<Rightarrow> u8) \<Rightarrow> nat \<Rightarrow> nat \<Rightarrow> (nat \<Rightarrow> u8)" where
  "bubble_inner d row k lim =
     (if k < lim then
        let n1 = row k;
            n2 = row (k + 1)
        in if d (unat n1) > d (unat n2)
           then bubble_inner d (row(k := n2, k + 1 := n1)) (k + 1) lim
           else bubble_inner d row (k + 1) lim
      else row)"
  by pat_completeness auto
termination
  by (relation "measure (\<lambda>(d, row, k, lim). lim - k)") auto

text \<open>The outer loop \<open>for (j = 0; j < num_nodes - 1; j++)\<close>.\<close>

function bubble_outer :: "(nat \<Rightarrow> u8) \<Rightarrow> (nat \<Rightarrow> u8) \<Rightarrow> nat \<Rightarrow> nat \<Rightarrow> (nat \<Rightarrow> u8)" where
  "bubble_outer d row j n =
     (if j < n - 1 then bubble_outer d (bubble_inner d row 0 (n - j - 1)) (j + 1) n
      else row)"
  by pat_completeness auto
termination
  by (relation "measure (\<lambda>(d, row, j, n). n - 1 - j)") auto

text \<open>The loop \<open>for (j = 0; j < num_nodes; j++) fallback[i][j] = j\<close>.\<close>

function copy_indices :: "(nat \<Rightarrow> u8) \<Rightarrow> nat \<Rightarrow> nat \<Rightarrow> (nat \<Rightarrow> u8)" where
  "copy_indices row j n =
     (if j < n then copy_indices (row(j := word_of_nat j)) (j + 1) n else row)"
  by pat_completeness auto
termination
  by (relation "measure (\<lambda>(row, j, n). n - j)") auto

text \<open>
  \<open>numa_build_fallback_order\<close>: \<open>build_rows st i\<close> is the loop over the nodes from \<open>i\<close> on.
  The bounds \<open>num_nodes - 1\<close> and \<open>num_nodes - j - 1\<close> are only evaluated inside the loop
  over \<open>i\<close>, where \<open>num_nodes\<close> is positive.
\<close>

function build_rows :: "numa_topology \<Rightarrow> nat \<Rightarrow> numa_topology" where
  "build_rows st i =
     (let n = unat (num_nodes st) in
      if i < n then
        let row0 = copy_indices (fallback st i) 0 n;
            row1 = bubble_outer (distance st i) row0 0 n
        in build_rows (st\<lparr>fallback := (fallback st)(i := row1)\<rparr>) (i + 1)
      else st)"
  by pat_completeness auto
termination
  by (relation "measure (\<lambda>(st, i). unat (num_nodes st) - i)") auto

definition numa_build_fallback_order :: "numa_topology \<Rightarrow> numa_topology" where
  "numa_build_fallback_order st = build_rows st 0"

text \<open>The row \<open>fallback[i]\<close>, read as the list of its first \<open>num_nodes\<close> node indices.\<close>

definition fallback_row :: "numa_topology \<Rightarrow> nat \<Rightarrow> nat list" where
  "fallback_row st i = map (\<lambda>j. unat (fallback st i j)) [0..<unat (num_nodes st)]"

text \<open>
  The order the specification asks for: ascending distance from node \<open>i\<close>, equal
  distances by ascending node index.
\<close>

definition closer :: "numa_topology \<Rightarrow> nat \<Rightarrow> nat \<Rightarrow> nat \<Rightarrow> bool" where
  "closer st i a b =
     (distance st i a < distance st i b \<or> (distance st i a = distance st i b \<and> a < b))"

text \<open>
  Two properties of a row during the sort. \<open>stab d row n\<close>: among the first \<open>n\<close> entries,
  entries at equal distance stand in ascending order of node index. \<open>sufsorted d row j n\<close>:
  the last \<open>j\<close> of the first \<open>n\<close> entries are in their final place, each at least as far
  as every entry before it.
\<close>

definition stab :: "(nat \<Rightarrow> u8) \<Rightarrow> (nat \<Rightarrow> u8) \<Rightarrow> nat \<Rightarrow> bool" where
  "stab d row n =
     (\<forall>a b. a < b \<and> b < n \<and> d (unat (row a)) = d (unat (row b)) \<longrightarrow> unat (row a) < unat (row b))"

definition sufsorted :: "(nat \<Rightarrow> u8) \<Rightarrow> (nat \<Rightarrow> u8) \<Rightarrow> nat \<Rightarrow> nat \<Rightarrow> bool" where
  "sufsorted d row j n =
     (\<forall>a b. a \<le> b \<and> n - j \<le> b \<and> b < n \<longrightarrow> d (unat (row a)) \<le> d (unat (row b)))"

text \<open>\<open>flagged h st pfn\<close>: the page carries \<open>PAGE_FLAG_BUDDY\<close>.\<close>

definition flagged :: "memory_h \<Rightarrow> numa_topology \<Rightarrow> u64 \<Rightarrow> bool" where
  "flagged h st pfn = (page_flags (pages st pfn) AND PAGE_FLAG_BUDDY h \<noteq> 0)"

section \<open>Properties of kernel states used in the results\<close>

text \<open>\<open>all_rq P k\<close>: every run queue of the kernel state satisfies \<open>P\<close>.\<close>

definition all_rq :: "(run_queue \<Rightarrow> bool) \<Rightarrow> kernel \<Rightarrow> bool" where
  "all_rq P k = (\<forall>cpu rq. runqueues k cpu = Some rq \<longrightarrow> P rq)"

text \<open>
  \<open>rq_consistent ths rq\<close>: every thread linked on \<open>queues[c][l]\<close> has class \<open>c\<close> and level
  \<open>l\<close> (its \<open>dynamic_priority % 32\<close>), and a queue that holds a thread has a non-zero
  count. \<open>rq_room rq\<close>: the counters are below their maximum.
\<close>

definition rq_consistent :: "(nat \<Rightarrow> thread) \<Rightarrow> run_queue \<Rightarrow> bool" where
  "rq_consistent ths rq =
     (\<forall>c<NUM_SCHED_CLASSES. \<forall>l<PRIO_LEVELS_PER_CLASS. \<forall>t\<in>set (queue (queues rq c l)).
        count_q (queues rq c l) \<noteq> 0
        \<and> unat (sched_class (ths t)) = c
        \<and> unat (dynamic_priority (ths t)) mod PRIO_LEVELS_PER_CLASS = l)"

definition rq_room :: "run_queue \<Rightarrow> bool" where
  "rq_room rq = (sum_counts rq < 2 ^ 32 - 1)"

definition level_counts :: "run_queue \<Rightarrow> nat \<Rightarrow> nat" where
  "level_counts rq c = (\<Sum>l\<leftarrow>[0..<PRIO_LEVELS_PER_CLASS]. unat (count_q (queues rq c l)))"

section \<open>Initial states (init_run_queue, sched_init_cpu, DosCreateThread)\<close>

text \<open>\<open>init_run_queue\<close>: every queue empty, every counter and bitmap zero.\<close>

definition init_run_queue :: run_queue where
  "init_run_queue =
     \<lparr>queues = (\<lambda>c p. \<lparr>queue = [], count_q = 0\<rparr>), active_bitmap = (\<lambda>c. 0),
      class_bitmap = 0, nr_running = 0, nr_switches = 0, current = None, idle = None,
      clock = 0, tick_count = 0\<rparr>"

text \<open>A thread as \<open>DosCreateThread\<close> sets it up on CPU \<open>cpu\<close> (Regular class, priority 16).\<close>

definition created_thread :: "u32 \<Rightarrow> thread" where
  "created_thread cpu =
     \<lparr>sched_class = SCHED_CLASS_REGULAR, base_priority = 16, dynamic_priority = 16,
      state = THREAD_STATE_SUSPENDED, flags = 0, timeslice = 31, timeslice_max = 31,
      total_runtime = 0, last_run = 0, cpu_affinity = - 1, last_cpu = cpu,
      preferred_cpu = cpu, context_switches = 0, voluntary_switches = 0,
      involuntary_switches = 0\<rparr>"

text \<open>The idle thread of CPU \<open>cpu\<close> as \<open>sched_init_cpu\<close> sets it up.\<close>

definition idle_thread :: "u32 \<Rightarrow> thread" where
  "idle_thread cpu =
     (created_thread cpu)
       \<lparr>sched_class := SCHED_CLASS_IDLE, base_priority := 0, dynamic_priority := 0,
        cpu_affinity := push_bit (unat cpu) 1,
        flags := 3 OR THREAD_FLAG_BOUND\<rparr>"

text \<open>
  Two CPUs online, each with an empty run queue and its idle thread (threads 0 and 1);
  thread 8 is a time-critical thread and every other thread a freshly created one,
  all created on CPU 1.
\<close>

definition two_cpu_kernel :: kernel where
  "two_cpu_kernel =
     \<lparr>threads = (\<lambda>t. if t = 0 then idle_thread 0 else if t = 1 then idle_thread 1
                     else if t = 8 then (created_thread 1)
                            \<lparr>sched_class := SCHED_CLASS_TIMECRIT, dynamic_priority := 79\<rparr>
                     else created_thread 1),
      runqueues = (\<lambda>cpu. if cpu = 0 then Some (init_run_queue\<lparr>idle := Some 0\<rparr>)
                         else if cpu = 1 then Some (init_run_queue\<lparr>idle := Some 1\<rparr>)
                         else None),
      cpus = (\<lambda>cpu. if cpu < 2 then Some \<lparr>apic_id = word_of_nat cpu, current_thread = None\<rparr>
                    else None),
      cpu_count = 2,
      online_mask = (\<lambda>i. if i = 0 then 3 else 0),
      preempt_counter = (\<lambda>cpu. 0),
      ipis_sent = [],
      critsec_count = 0,
      critsec_lock = 0\<rparr>"

text \<open>Threads 7 and 8 made ready on CPU 1.\<close>

definition loaded_kernel :: "kernel option" where
  "loaded_kernel = Option.bind (enqueue_thread two_cpu_kernel 1 7) (\<lambda>k. enqueue_thread k 1 8)"

definition rq_of :: "kernel option \<Rightarrow> nat \<Rightarrow> run_queue option" where
  "rq_of ko cpu = Option.bind ko (\<lambda>k. runqueues k cpu)"

section \<open>CPU selection as the specification words it\<close>

text \<open>CPU \<open>cpu\<close> is in the affinity mask of the thread: bit \<open>cpu\<close> of the mask is set.\<close>

definition cpu_allowed :: "thread \<Rightarrow> nat \<Rightarrow> bool" where
  "cpu_allowed th cpu = bit (cpu_affinity th) cpu"

definition MAX_CPUS :: nat where "MAX_CPUS = 256"

text \<open>
  The CPU the specification names for \<open>enqueue_thread\<close>: \<open>preferred_cpu\<close> if allowed by
  the affinity mask, else the first bit set in \<open>affinity & online_mask\<close>.
\<close>

definition claimed_select_cpu :: "kernel \<Rightarrow> thread \<Rightarrow> nat option" where
  "claimed_select_cpu k th =
     (if cpu_allowed th (unat (preferred_cpu th)) then Some (unat (preferred_cpu th))
      else find (\<lambda>cpu. cpu_allowed th cpu \<and> cpu_isset cpu (online_mask k)) [0..<MAX_CPUS])"

text \<open>A thread created on CPU 0 whose affinity mask was then set to \<open>{1, 2}\<close>.\<close>

definition thread_12 :: thread where
  "thread_12 = (created_thread 0)\<lparr>cpu_affinity := 6\<rparr>"

text \<open>
  Four processors of which CPU 1 did not come up: \<open>smp_boot_cpu(1)\<close> failed, so \<open>smp_init\<close>
  counted three CPUs, the online mask is \<open>{0, 2, 3}\<close> and \<open>scheduler.runqueues[1]\<close> is still
  \<open>NULL\<close>. Thread 12 is the thread above, about to be enqueued.
\<close>

definition cpu1_failed_kernel :: kernel where
  "cpu1_failed_kernel =
     two_cpu_kernel
       \<lparr>threads := (threads two_cpu_kernel)(12 := thread_12),
        runqueues := (\<lambda>cpu. if cpu = 1 \<or> cpu > 3 then None
                            else Some (init_run_queue\<lparr>idle := Some cpu\<rparr>)),
        cpus := (\<lambda>cpu. if cpu < 4 then Some \<lparr>apic_id = word_of_nat cpu, current_thread = None\<rparr>
                       else None),
        cpu_count := 3,
        online_mask := (\<lambda>i. if i = 0 then 13 else 0)\<rparr>"

section \<open>An initial NUMA state\<close>

text \<open>Values for the two constants of the missing header.\<close>

definition mem_h :: memory_h where
  "mem_h = \<lparr>MAX_ORDER = 11, PAGE_FLAG_BUDDY = 1\<rparr>"

definition empty_node :: numa_mem_info where
  "empty_node =
     \<lparr>start_pfn = 0, end_pfn = 0, free_pages = 0, total_pages = 0,
      free_list = (\<lambda>k. []), free_count = (\<lambda>k. 0)\<rparr>"

text \<open>
  Two nodes with the default distances. Node 0 owns the page frames below 1024 and has
  one free block, the order-1 block at page frame 0; node 1 has no free memory.
\<close>

definition two_node_raw :: numa_topology where
  "two_node_raw =
       \<lparr>num_nodes = 2,
        nodes = (\<lambda>n. if n = 0
                      then empty_node\<lparr>end_pfn := 1024, total_pages := 1024, free_pages := 2,
                                      free_list := (\<lambda>k. if k = 1 then [0] else []),
                                      free_count := (\<lambda>k. if k = 1 then 1 else 0)\<rparr>
                      else empty_node),
        distance = (\<lambda>i j. if i = j then 10 else 20),
        fallback = (\<lambda>i j. 0),
        pages = (\<lambda>pfn. \<lparr>page_flags = (if pfn = 0 then 1 else 0),
                         page_order = (if pfn = 0 then 1 else 0),
                         numa_node = (if pfn < 1024 then 0 else 1)\<rparr>),
        numa_enabled = True\<rparr>"

definition two_node_topology :: numa_topology where
  "two_node_topology = numa_build_fallback_order two_node_raw"

text \<open>
  Four nodes whose distance is 10 to the node itself, 30 between nodes of different
  parity and 20 otherwise.
\<close>

definition four_node_raw :: numa_topology where
  "four_node_raw =
     two_node_raw
       \<lparr>num_nodes := 4,
        distance := (\<lambda>i j. if i = j then 10 else if (i + j) mod 2 = 1 then 30 else 20)\<rparr>"

text \<open>
  Steps on optional states: an order-0 allocation on node 0 that must return the page
  frame \<open>pg\<close>, and the release of an order-0 page.
\<close>

definition alloc0 :: "u64 \<Rightarrow> numa_topology option \<Rightarrow> numa_topology option" where
  "alloc0 pg so =
     (case so of
        None \<Rightarrow> None
      | Some st \<Rightarrow>
          (case numa_alloc_pages mem_h st 0 0 of
             Some (Page pg', st') \<Rightarrow> if pg' = pg then Some st' else None
           | _ \<Rightarrow> None))"

definition free0 :: "u64 \<Rightarrow> numa_topology option \<Rightarrow> numa_topology option" where
  "free0 pg so = map_option (\<lambda>st. numa_free_pages mem_h st pg 0) so"

text \<open>The counters of node 0: \<open>free_pages\<close>, the counted pages, and the invariant.\<close>

definition node0_counters :: "numa_topology option \<Rightarrow> (nat \<times> nat \<times> bool) option" where
  "node0_counters so =
     map_option (\<lambda>st. (unat (free_pages (nodes st 0)), counted_pages mem_h (nodes st 0),
                       node_invariant mem_h (nodes st 0))) so"


text \<open>
  The state reached from the initial one by allocating page 0, releasing it and
  allocating it again: page 1 is the only free page of node 0.
\<close>

definition one_page_left :: "numa_topology option" where
  "one_page_left = alloc0 0 (free0 0 (alloc0 0 (Some two_node_topology)))"

definition node0_free_pages :: "numa_topology option \<Rightarrow> u64 option" where
  "node0_free_pages so = map_option (\<lambda>st. free_pages (nodes st 0)) so"

section \<open>Ticket spinlock: results\<close>

lemma m16: "(0xFFFF :: u32) = mask 16" by (simp add: mask_eq_exp_minus_1)

lemma lock_split: "mk_lock (lock_head w) (lock_tail w) = w"
  unfolding mk_lock_def lock_head_def lock_tail_def m16
  by (rule bit_word_eqI) (auto simp: bit_simps)

lemma head_ucast: "(ucast (lock_head w) :: u32) = w AND 0xFFFF"
  unfolding lock_head_def m16
  by (rule bit_word_eqI) (auto simp: bit_simps)

lemma tail_ucast: "(ucast (lock_tail w) :: u32) = drop_bit 16 w"
  unfolding lock_tail_def
  by (rule bit_word_eqI) (auto simp: bit_simps dest: bit_imp_le_length)

lemma lock_free_iff: "(drop_bit 16 w = (w AND 0xFFFF)) = (lock_head w = lock_tail w)"
  for w :: u32
proof
  assume h: "drop_bit 16 w = w AND 0xFFFF"
  have "lock_tail w = ucast (drop_bit 16 w)" by (simp add: lock_tail_def)
  also have "\<dots> = ucast (w AND 0xFFFF)" using h by simp
  finally show "lock_head w = lock_tail w" by (simp add: lock_head_def)
next
  assume h: "lock_head w = lock_tail w"
  from head_ucast[of w] tail_ucast[of w] h show "drop_bit 16 w = w AND 0xFFFF" by simp
qed

lemma head_mk: "lock_head (mk_lock h t) = h"
  unfolding mk_lock_def lock_head_def m16
  by (rule bit_word_eqI) (auto simp: bit_simps dest: bit_imp_le_length)

lemma tail_mk: "lock_tail (mk_lock h t) = t"
  unfolding mk_lock_def lock_tail_def
  by (rule bit_word_eqI) (auto simp: bit_simps dest: bit_imp_le_length)




lemma unat_head: "unat (lock_head w) = unat w mod 65536"
  unfolding lock_head_def m16
  by (simp add: unsigned_ucast_eq take_bit_eq_mod unat_mod flip: take_bit_eq_mask)

lemma unat_tail: "unat (lock_tail w) = unat w div 65536"
proof -
  have "unat w < 2 ^ 32" using unsigned_less[of w] by simp
  then have "unat w div 65536 < 65536" by simp
  then show ?thesis
    unfolding lock_tail_def
    by (simp add: unsigned_ucast_eq drop_bit_eq_div take_bit_eq_mod unat_div)
qed

lemma ar1: "((n::nat) + 65536) mod 4294967296 mod 65536 = n mod 65536"
proof -
  have "(65536::nat) dvd 4294967296" by simp
  then have "(n + 65536) mod 4294967296 mod 65536 = (n + 65536) mod 65536"
    by (rule mod_mod_cancel)
  then show ?thesis by simp
qed

lemma ar2: "((n::nat) + 65536) mod 4294967296 div 65536 = (n div 65536 + 1) mod 65536"
proof -
  have "4294967296 = (65536::nat) * 65536" by simp
  then have "(n + 65536) mod 4294967296 div 65536 = ((n + 65536) div 65536) mod 65536"
    by (simp only: mod_mult2_eq)
  moreover have "(n + 65536) div 65536 = n div 65536 + 1"
    by (rule div_add_self2) simp
  ultimately show ?thesis by (simp only:)
qed

lemma head_add: "lock_head (w + 0x10000) = lock_head w"
  by (simp add: word_unat_eq_iff unat_head unat_word_ariths ar1)

lemma tail_add: "lock_tail (w + 0x10000) = lock_tail w + 1"
  by (simp add: word_unat_eq_iff unat_tail unat_word_ariths ar2)

lemma add_tail: "w + 0x10000 = mk_lock (lock_head w) (lock_tail w + 1)" for w :: u32
  using lock_split[of "w + 0x10000"] by (simp add: head_add tail_add)

text \<open>
  C9. \<open>spin_trylock\<close> returns 1 exactly when the lock is free (head equals tail) and
  then increments tail by one, leaving head as it is; when it returns 0 the lock word is
  unchanged. In both cases the lock is held afterwards. The function is a single
  compare-and-exchange without a loop.
\<close>

theorem spin_trylock_correct:
  "spin_trylock lock =
     (if lock_head lock = lock_tail lock
      then (1, mk_lock (lock_head lock) (lock_tail lock + 1))
      else (0, lock))
   \<and> spin_is_locked (snd (spin_trylock lock))"
proof (cases "lock_head lock = lock_tail lock")
  case True
  then have free: "drop_bit 16 lock = lock AND 0xFFFF" by (simp add: lock_free_iff)
  have r: "spin_trylock lock = (1, lock + 0x10000)"
    using free by (simp add: spin_trylock_def atomic_compare_exchange_def)
  have "lock_head (lock + 0x10000) \<noteq> lock_tail (lock + 0x10000)"
    using True by (simp add: head_add tail_add)
  then have "spin_is_locked (lock + 0x10000)"
    unfolding spin_is_locked_def Let_def using lock_free_iff[of "lock + 0x10000"] by simp
  with r True show ?thesis by (simp add: add_tail)
next
  case False
  then have held: "drop_bit 16 lock \<noteq> lock AND 0xFFFF" by (simp add: lock_free_iff)
  then show ?thesis using False by (simp add: spin_trylock_def spin_is_locked_def)
qed

section \<open>Priority mapping: results\<close>

lemma os2_priority_nonneg_delta:
  assumes "0 \<le> delta" "delta \<le> 31"
  shows "unat (os2_to_internal_priority 1 (delta_arg delta)) = 0 * 32 + nat (spec_level delta)"
    and "unat (os2_to_internal_priority 2 (delta_arg delta)) = 1 * 32 + nat (spec_level delta)"
    and "unat (os2_to_internal_priority 3 (delta_arg delta)) = 2 * 32 + nat (spec_level delta)"
    and "unat (os2_to_internal_priority 4 (delta_arg delta)) = 3 * 32 + nat (spec_level delta)"
proof -
  have "delta \<in> {0..31}" using assms by simp
  then have "delta \<in> set [0..31]" by simp
  then have "delta \<in> {0,1,2,3,4,5,6,7,8,9,10,11,12,13,14,15,16,17,18,19,20,21,22,23,24,25,
      26,27,28,29,30,31}"
    by (simp add: upto_rec1 upto.simps)
  then show
    "unat (os2_to_internal_priority 1 (delta_arg delta)) = 0 * 32 + nat (spec_level delta)"
    "unat (os2_to_internal_priority 2 (delta_arg delta)) = 1 * 32 + nat (spec_level delta)"
    "unat (os2_to_internal_priority 3 (delta_arg delta)) = 2 * 32 + nat (spec_level delta)"
    "unat (os2_to_internal_priority 4 (delta_arg delta)) = 3 * 32 + nat (spec_level delta)"
    by (auto simp: os2_to_internal_priority_def delta_arg_def spec_level_def
        SCHED_CLASS_IDLE_def SCHED_CLASS_REGULAR_def SCHED_CLASS_TIMECRIT_def
        SCHED_CLASS_SERVER_def PRIO_LEVELS_PER_CLASS_def)
qed

text \<open>
  C6. The code at the delta \<open>-1\<close> in class 2 (Regular): the byte parameter receives 255,
  \<open>(255 + 31) / 2 = 143\<close> exceeds 31 and is cut to 31, so the result is
  \<open>1 * 32 + 31 = 63\<close>, while \<open>(delta + 31) / 2\<close> clamped is 15.
\<close>

theorem os2_priority_negative_delta:
  "os2_to_internal_priority 2 (delta_arg (- 1)) = 63 \<and> spec_level (- 1) = 15"
  by code_simp

section \<open>Inter-processor interrupts: results\<close>

text \<open>
  C10. \<open>smp_send_ipi(cpu_id, ipi_type)\<close> with \<open>cpu_id\<close> at or beyond the online CPU count,
  or with an \<open>ipi_type\<close> that is none of the four known kinds, returns with the state
  as it was: no interrupt is sent and nothing is written.
\<close>

theorem smp_send_ipi_noop:
  assumes "cpu_id \<ge> cpu_count k
           \<or> ipi_type \<notin> {IPI_RESCHEDULE, IPI_TLB_FLUSH, IPI_CALL_FUNC, IPI_STOP}"
  shows "smp_send_ipi k cpu_id ipi_type = Some k"
  using assms by (auto simp: smp_send_ipi_def ipi_vector_def)

theorem smp_send_ipi_noop_witness:
  "(2 \<ge> cpu_count two_cpu_kernel
      \<or> IPI_RESCHEDULE \<notin> {IPI_RESCHEDULE, IPI_TLB_FLUSH, IPI_CALL_FUNC, IPI_STOP})
   \<and> smp_send_ipi two_cpu_kernel 2 IPI_RESCHEDULE = Some two_cpu_kernel
   \<and> (0 \<ge> cpu_count two_cpu_kernel
      \<or> IPI_NMI \<notin> {IPI_RESCHEDULE, IPI_TLB_FLUSH, IPI_CALL_FUNC, IPI_STOP})
   \<and> smp_send_ipi two_cpu_kernel 0 IPI_NMI = Some two_cpu_kernel
   \<and> smp_send_ipi two_cpu_kernel 1 IPI_RESCHEDULE \<noteq> Some two_cpu_kernel"
proof -
  have c: "cpu_count two_cpu_kernel = 2" by (simp add: two_cpu_kernel_def)
  have n: "IPI_NMI \<notin> {IPI_RESCHEDULE, IPI_TLB_FLUSH, IPI_CALL_FUNC, IPI_STOP}"
    by (simp add: IPI_NMI_def IPI_RESCHEDULE_def IPI_TLB_FLUSH_def IPI_CALL_FUNC_def IPI_STOP_def)
  have s: "smp_send_ipi two_cpu_kernel 1 IPI_RESCHEDULE \<noteq> Some two_cpu_kernel"
  proof
    assume "smp_send_ipi two_cpu_kernel 1 IPI_RESCHEDULE = Some two_cpu_kernel"
    then have "ipis_sent (the (smp_send_ipi two_cpu_kernel 1 IPI_RESCHEDULE)) = ipis_sent two_cpu_kernel"
      by simp
    moreover have "ipis_sent (the (smp_send_ipi two_cpu_kernel 1 IPI_RESCHEDULE)) = [(1, 0xFA)]"
      by code_simp
    moreover have "ipis_sent two_cpu_kernel = []"
      by code_simp
    ultimately show False by simp
  qed
  show ?thesis
    using smp_send_ipi_noop [of two_cpu_kernel 2 IPI_RESCHEDULE]
      smp_send_ipi_noop [of two_cpu_kernel 0 IPI_NMI] c n s
    by simp
qed

section \<open>Critical sections: results\<close>

text \<open>
  C7. \<open>DosExitCritSec\<close> called with a critical-section count of zero returns
  \<open>ERROR_CRITSEC_UNDERFLOW\<close> and leaves the whole state as it was, in particular the
  critical-section count and the per-CPU preempt counter.
\<close>

theorem DosExitCritSec_underflow:
  assumes "critsec_count k = 0"
  shows "DosExitCritSec k this_cpu now = Some (ERROR_CRITSEC_UNDERFLOW, k)"
  using assms by (simp add: DosExitCritSec_def)

theorem DosExitCritSec_underflow_witness:
  "critsec_count two_cpu_kernel = 0
   \<and> DosExitCritSec two_cpu_kernel 0 0 = Some (ERROR_CRITSEC_UNDERFLOW, two_cpu_kernel)
   \<and> map_option (\<lambda>(r, k). (r, critsec_count k, preempt_counter k 0))
        (DosExitCritSec (two_cpu_kernel\<lparr>critsec_count := 1\<rparr>) 0 0)
      = Some (NO_ERROR, 0, - 1)"
proof -
  have c: "critsec_count two_cpu_kernel = 0" by (simp add: two_cpu_kernel_def)
  have e: "map_option (\<lambda>(r, k). (r, critsec_count k, preempt_counter k 0))
        (DosExitCritSec (two_cpu_kernel\<lparr>critsec_count := 1\<rparr>) 0 0)
      = Some (NO_ERROR, 0, - 1)"
    by code_simp
  show ?thesis using DosExitCritSec_underflow [OF c, of 0 0] c e by simp
qed

section \<open>Run-queue invariant: the bookkeeping of enqueue, dequeue and schedule\<close>

text \<open>
  The blocks that \<open>enqueue_thread\<close>, \<open>dequeue_thread\<close> and \<open>schedule\<close> run under the
  run-queue lock keep the invariant: adding a thread while the counters have room, and
  removing one from a level whose count is not zero.
\<close>

lemma single_bit_test: "(w AND push_bit n 1 \<noteq> 0) = bit w n" for w :: u32
proof -
  have "(w AND 2 ^ n = 0) = (\<not> bit w n)" by (rule and_exp_eq_0_iff_not_bit)
  then show ?thesis by (simp add: push_bit_of_1)
qed

lemma level_bit_test: "(w AND level_bit l \<noteq> 0) = bit w (31 - l)"
  unfolding level_bit_def by (rule single_bit_test)

lemma class_bit_test: "(w AND class_bit c \<noteq> 0) = bit w c"
  unfolding class_bit_def by (rule single_bit_test)

lemma bit_level_bit: "bit (level_bit p) n = (n = 31 - p)"
  by (auto simp: level_bit_def bit_simps)

lemma bit_class_bit: "c < 32 \<Longrightarrow> bit (class_bit c) n = (n = c)"
  by (auto simp: class_bit_def bit_simps)

lemma level_bit_nonzero: "level_bit p \<noteq> 0"
proof
  assume "level_bit p = 0"
  then have "bit (level_bit p) (31 - p) = bit (0 :: u32) (31 - p)" by simp
  then show False by (simp add: bit_level_bit)
qed

lemma sum_list_upd:
  assumes "p < n" "\<And>l. l \<noteq> p \<Longrightarrow> g l = f l"
  shows "sum_list (map g [0..<n]) + f p = sum_list (map f [0..<n]) + (g p :: nat)"
proof -
  have g: "sum g {0..<n} = g p + sum g ({0..<n} - {p})"
    using assms(1) by (intro sum.remove) simp_all
  have f: "sum f {0..<n} = f p + sum f ({0..<n} - {p})"
    using assms(1) by (intro sum.remove) simp_all
  have "sum g ({0..<n} - {p}) = sum f ({0..<n} - {p})"
    by (intro sum.cong) (simp_all add: assms(2))
  with f g show ?thesis by (simp add: interv_sum_list_conv_sum_set_nat)
qed

lemma sum_counts_alt: "sum_counts rq = (\<Sum>c\<leftarrow>[0..<NUM_SCHED_CLASSES]. level_counts rq c)"
  by (simp add: sum_counts_def level_counts_def)

lemma count_le_sum:
  assumes "c < NUM_SCHED_CLASSES" "p < PRIO_LEVELS_PER_CLASS"
  shows "unat (count_q (queues rq c p)) \<le> sum_counts rq"
proof -
  have "unat (count_q (queues rq c p)) \<le> level_counts rq c"
    unfolding level_counts_def using assms(2)
    by (intro member_le_sum_list) auto
  also have "\<dots> \<le> sum_counts rq"
    unfolding sum_counts_alt using assms(1)
    by (intro member_le_sum_list) auto
  finally show ?thesis .
qed

lemma sum_counts_upd:
  assumes "c < NUM_SCHED_CLASSES" "p < PRIO_LEVELS_PER_CLASS"
    and "\<And>c' l. (c', l) \<noteq> (c, p) \<Longrightarrow> count_q (queues rq' c' l) = count_q (queues rq c' l)"
  shows "sum_counts rq' + unat (count_q (queues rq c p))
         = sum_counts rq + unat (count_q (queues rq' c p))"
proof -
  have lv: "level_counts rq' c + unat (count_q (queues rq c p))
            = level_counts rq c + unat (count_q (queues rq' c p))"
    unfolding level_counts_def using assms(2,3)
    by (intro sum_list_upd) auto
  have oth: "\<And>c'. c' \<noteq> c \<Longrightarrow> level_counts rq' c' = level_counts rq c'"
    unfolding level_counts_def using assms(3) by simp
  have "sum_counts rq' + level_counts rq c = sum_counts rq + level_counts rq' c"
    unfolding sum_counts_alt using assms(1) oth by (intro sum_list_upd) auto
  with lv show ?thesis by linarith
qed

lemma rq_invariant_iff:
  "rq_invariant rq =
     (unat (nr_running rq) = sum_counts rq
      \<and> (\<forall>c<NUM_SCHED_CLASSES. \<forall>l<PRIO_LEVELS_PER_CLASS.
            bit (active_bitmap rq c) (31 - l) = (count_q (queues rq c l) \<noteq> 0))
      \<and> (\<forall>c<NUM_SCHED_CLASSES. bit (class_bitmap rq) c = (active_bitmap rq c \<noteq> 0)))"
  by (auto simp: rq_invariant_def list_all_iff level_bit_test class_bit_test)

lemma rq_add_tail_fields:
  "count_q (queues (rq_add_tail rq c p t) c' l) =
     (if c' = c \<and> l = p then count_q (queues rq c p) + 1 else count_q (queues rq c' l))"
  "active_bitmap (rq_add_tail rq c p t) c' =
     (if c' = c then active_bitmap rq c OR level_bit p else active_bitmap rq c')"
  "class_bitmap (rq_add_tail rq c p t) = class_bitmap rq OR class_bit c"
  "nr_running (rq_add_tail rq c p t) = nr_running rq + 1"
  by (simp_all add: rq_add_tail_def Let_def)

lemma unat_inc: "unat w < 2 ^ 32 - 1 \<Longrightarrow> unat (w + 1) = unat w + 1" for w :: u32
  by (simp add: unat_word_ariths)

lemma unat_dec: "w \<noteq> 0 \<Longrightarrow> unat (w - 1) = unat w - 1" for w :: u32
  by (simp add: unat_minus_one)

lemma level_index_inj:
  "l < PRIO_LEVELS_PER_CLASS \<Longrightarrow> p < PRIO_LEVELS_PER_CLASS \<Longrightarrow> (31 - l = 31 - p) = (l = p)"
  by (auto simp: PRIO_LEVELS_PER_CLASS_def)

lemma rq_add_tail_invariant:
  assumes inv: "rq_invariant rq"
    and c: "c < NUM_SCHED_CLASSES" and p: "p < PRIO_LEVELS_PER_CLASS"
    and room: "sum_counts rq < 2 ^ 32 - 1"
  shows "rq_invariant (rq_add_tail rq c p t)"
proof -
  let ?rq = "rq_add_tail rq c p t"
  from inv have nr: "unat (nr_running rq) = sum_counts rq"
    and lv: "\<And>c l. c < NUM_SCHED_CLASSES \<Longrightarrow> l < PRIO_LEVELS_PER_CLASS \<Longrightarrow>
              bit (active_bitmap rq c) (31 - l) = (count_q (queues rq c l) \<noteq> 0)"
    and cl: "\<And>c. c < NUM_SCHED_CLASSES \<Longrightarrow> bit (class_bitmap rq) c = (active_bitmap rq c \<noteq> 0)"
    by (simp_all add: rq_invariant_iff)
  have cnt: "unat (count_q (queues rq c p)) < 2 ^ 32 - 1"
    using count_le_sum[OF c p, of rq] room by linarith
  then have cnt1: "unat (count_q (queues rq c p) + 1) = unat (count_q (queues rq c p)) + 1"
    by (rule unat_inc)
  then have nz: "count_q (queues rq c p) + 1 \<noteq> 0"
    by (metis Suc_eq_plus1 nat.simps(3) unat_0)
  have "sum_counts ?rq + unat (count_q (queues rq c p))
        = sum_counts rq + unat (count_q (queues ?rq c p))"
    using c p by (intro sum_counts_upd) (auto simp: rq_add_tail_fields)
  then have sm: "sum_counts ?rq = sum_counts rq + 1"
    using cnt1 by (simp add: rq_add_tail_fields)
  have "unat (nr_running ?rq) = unat (nr_running rq) + 1"
    using nr room by (simp add: rq_add_tail_fields unat_inc)
  with nr sm have 1: "unat (nr_running ?rq) = sum_counts ?rq" by simp
  have 2: "bit (active_bitmap ?rq c') (31 - l) = (count_q (queues ?rq c' l) \<noteq> 0)"
    if "c' < NUM_SCHED_CLASSES" "l < PRIO_LEVELS_PER_CLASS" for c' l
    using that lv[OF that] nz p
    by (auto simp: rq_add_tail_fields bit_simps bit_level_bit level_index_inj)
  have c32: "c < 32" using c by (simp add: NUM_SCHED_CLASSES_def)
  have az: "active_bitmap rq c OR level_bit p \<noteq> 0"
  proof
    assume "active_bitmap rq c OR level_bit p = 0"
    then have "bit (active_bitmap rq c OR level_bit p) (31 - p) = bit (0 :: u32) (31 - p)" by simp
    then show False by (simp add: bit_simps bit_level_bit)
  qed
  have 3: "bit (class_bitmap ?rq) c' = (active_bitmap ?rq c' \<noteq> 0)"
    if "c' < NUM_SCHED_CLASSES" for c'
    using that cl[OF that] az c32
    by (auto simp: rq_add_tail_fields bit_simps bit_class_bit)
  from 1 2 3 show ?thesis by (simp add: rq_invariant_iff)
qed

lemma rq_account_del_fields:
  "count_q (queues (rq_account_del rq c p) c' l) =
     (if c' = c \<and> l = p then count_q (queues rq c p) - 1 else count_q (queues rq c' l))"
  "active_bitmap (rq_account_del rq c p) c' =
     (if c' = c \<and> count_q (queues rq c p) - 1 = 0
      then active_bitmap rq c AND NOT (level_bit p) else active_bitmap rq c')"
  "class_bitmap (rq_account_del rq c p) =
     (if count_q (queues rq c p) - 1 = 0 \<and> active_bitmap rq c AND NOT (level_bit p) = 0
      then class_bitmap rq AND NOT (class_bit c) else class_bitmap rq)"
  "nr_running (rq_account_del rq c p) = nr_running rq - 1"
  by (simp_all add: rq_account_del_def Let_def)

lemma rq_account_del_invariant:
  assumes inv: "rq_invariant rq"
    and c: "c < NUM_SCHED_CLASSES" and p: "p < PRIO_LEVELS_PER_CLASS"
    and queued: "count_q (queues rq c p) \<noteq> 0"
  shows "rq_invariant (rq_account_del rq c p)"
proof -
  let ?rq = "rq_account_del rq c p"
  from inv have nr: "unat (nr_running rq) = sum_counts rq"
    and lv: "\<And>c l. c < NUM_SCHED_CLASSES \<Longrightarrow> l < PRIO_LEVELS_PER_CLASS \<Longrightarrow>
              bit (active_bitmap rq c) (31 - l) = (count_q (queues rq c l) \<noteq> 0)"
    and cl: "\<And>c. c < NUM_SCHED_CLASSES \<Longrightarrow> bit (class_bitmap rq) c = (active_bitmap rq c \<noteq> 0)"
    by (simp_all add: rq_invariant_iff)
  have pos: "0 < unat (count_q (queues rq c p))"
    using queued by (simp add: unat_gt_0)
  have cnt1: "unat (count_q (queues rq c p) - 1) = unat (count_q (queues rq c p)) - 1"
    using queued by (rule unat_dec)
  have "sum_counts ?rq + unat (count_q (queues rq c p))
        = sum_counts rq + unat (count_q (queues ?rq c p))"
    using c p by (intro sum_counts_upd) (auto simp: rq_account_del_fields)
  then have sm: "sum_counts ?rq = sum_counts rq - 1"
    using cnt1 pos by (simp add: rq_account_del_fields)
  have "0 < sum_counts rq" using count_le_sum[OF c p, of rq] pos by linarith
  then have "nr_running rq \<noteq> 0" using nr by auto
  then have "unat (nr_running ?rq) = unat (nr_running rq) - 1"
    by (simp add: rq_account_del_fields unat_dec)
  with nr sm have 1: "unat (nr_running ?rq) = sum_counts ?rq" by simp
  have 2: "bit (active_bitmap ?rq c') (31 - l) = (count_q (queues ?rq c' l) \<noteq> 0)"
    if "c' < NUM_SCHED_CLASSES" "l < PRIO_LEVELS_PER_CLASS" for c' l
    using that lv[OF that] lv[OF c p] queued p
    by (auto simp: rq_account_del_fields bit_simps bit_level_bit level_index_inj)
  have c32: "c < 32" using c by (simp add: NUM_SCHED_CLASSES_def)
  have keep: "active_bitmap rq c \<noteq> 0"
  proof
    assume "active_bitmap rq c = 0"
    then have "\<not> bit (active_bitmap rq c) (31 - p)" by simp
    with lv[OF c p] queued show False by simp
  qed
  have 3: "bit (class_bitmap ?rq) c' = (active_bitmap ?rq c' \<noteq> 0)"
    if "c' < NUM_SCHED_CLASSES" for c'
  proof -
    from that have "c' < 32" by (simp add: NUM_SCHED_CLASSES_def)
    with that cl[OF that] cl[OF c] keep c32 show ?thesis
      by (auto simp: rq_account_del_fields bit_simps bit_class_bit)
  qed
  from 1 2 3 show ?thesis by (simp add: rq_invariant_iff)
qed

lemma rq_unlink_invariant: "rq_invariant (rq_unlink t rq) = rq_invariant rq"
  by (simp add: rq_invariant_def rq_unlink_def sum_counts_def)

declare pick_level.simps [simp del]

lemma pick_level_member:
  "pick_level rq c p = Some t \<Longrightarrow> \<exists>l<PRIO_LEVELS_PER_CLASS. t \<in> set (queue (queues rq c l))"
proof (induction x \<equiv> "PRIO_LEVELS_PER_CLASS - p" arbitrary: p)
  case 0
  then have "\<not> p < PRIO_LEVELS_PER_CLASS" by linarith
  with 0(2) show ?case by (subst (asm) pick_level.simps) simp
next
  case (Suc x)
  then have lt: "p < PRIO_LEVELS_PER_CLASS" and x: "x = PRIO_LEVELS_PER_CLASS - (p + 1)"
    by simp_all
  have l: "31 - p < PRIO_LEVELS_PER_CLASS" by (simp add: PRIO_LEVELS_PER_CLASS_def)
  from Suc.prems lt consider
      "pick_level rq c (p + 1) = Some t"
    | rest where "queue (queues rq c (31 - p)) = t # rest"
    by (subst (asm) pick_level.simps) (auto split: if_splits list.splits)
  then show ?case
  proof cases
    case 1
    from Suc.hyps(1)[OF x 1] show ?thesis .
  next
    case 2
    with l show ?thesis by (intro exI[of _ "31 - p"]) simp
  qed
qed

lemma pick_class_member:
  "pick_class rq n = Some t \<Longrightarrow>
   \<exists>c<n. \<exists>l<PRIO_LEVELS_PER_CLASS. t \<in> set (queue (queues rq c l))"
proof (induction n)
  case 0
  then show ?case by simp
next
  case (Suc n)
  from Suc.prems consider "pick_class rq n = Some t"
    | p where "pick_level rq n p = Some t"
    by (auto simp: Let_def split: if_splits option.splits)
  then show ?case
  proof cases
    case 1
    from Suc.IH[OF 1] show ?thesis using less_Suc_eq by auto
  next
    case 2
    from pick_level_member[OF 2] show ?thesis by auto
  qed
qed

lemma pick_next_thread_member:
  assumes "pick_next_thread rq = Some t"
  shows "Some t = idle rq
         \<or> (\<exists>c<NUM_SCHED_CLASSES. \<exists>l<PRIO_LEVELS_PER_CLASS. t \<in> set (queue (queues rq c l)))"
proof (cases "pick_class rq NUM_SCHED_CLASSES")
  case None
  with assms show ?thesis by (simp add: pick_next_thread_def split: if_splits)
next
  case (Some u)
  with assms have "Some t = idle rq \<or> u = t"
    by (auto simp: pick_next_thread_def split: if_splits)
  with pick_class_member[OF Some] show ?thesis by auto
qed

lemma all_rq_upd_rq:
  assumes "all_rq P k" "\<And>rq. runqueues k cpu = Some rq \<Longrightarrow> P rq \<Longrightarrow> P (f rq)"
  shows "all_rq P (upd_rq k cpu f)"
  using assms by (auto simp: all_rq_def upd_rq_def)

lemma runqueues_upd_thread: "runqueues (upd_thread k t f) = runqueues k"
  by (simp add: upd_thread_def)

lemma threads_upd_rq: "threads (upd_rq k cpu f) = threads k"
  by (simp add: upd_rq_def)

lemma set_need_resched_runqueues:
  "set_need_resched k c = Some k' \<Longrightarrow> runqueues k' = runqueues k"
  by (auto simp: set_need_resched_def upd_thread_def split: option.splits)

lemma smp_send_ipi_runqueues:
  "smp_send_ipi k c ty = Some k' \<Longrightarrow> runqueues k' = runqueues k"
  by (auto simp: smp_send_ipi_def lapic_send_ipi_def split: option.splits if_splits)

lemma level_in_range: "n mod PRIO_LEVELS_PER_CLASS < PRIO_LEVELS_PER_CLASS"
  by (simp add: PRIO_LEVELS_PER_CLASS_def)

lemma enqueue_thread_runqueues:
  assumes "enqueue_thread k this_cpu t = Some k'"
  shows "\<exists>cpu. enqueue_select_cpu k (threads k t) = Some cpu
           \<and> runqueues k' =
               runqueues (upd_rq k cpu
                 (\<lambda>rq. rq_add_tail rq (unat (sched_class (threads k t)))
                        (unat (dynamic_priority (threads k t)) mod PRIO_LEVELS_PER_CLASS) t))"
proof (cases "enqueue_select_cpu k (threads k t)")
  case None
  with assms show ?thesis by (simp add: enqueue_thread_def Let_def)
next
  case (Some cpu)
  with assms show ?thesis
    by (auto simp: enqueue_thread_def Let_def runqueues_upd_thread
        dest!: set_need_resched_runqueues smp_send_ipi_runqueues
        split: option.splits if_splits)
qed

lemma enqueue_thread_invariant:
  assumes "all_rq rq_invariant k" "all_rq rq_room k"
    and "unat (sched_class (threads k t)) < NUM_SCHED_CLASSES"
    and "enqueue_thread k this_cpu t = Some k'"
  shows "all_rq rq_invariant k'"
proof -
  from enqueue_thread_runqueues[OF assms(4)] obtain cpu where
    r: "runqueues k' =
          runqueues (upd_rq k cpu
            (\<lambda>rq. rq_add_tail rq (unat (sched_class (threads k t)))
                   (unat (dynamic_priority (threads k t)) mod PRIO_LEVELS_PER_CLASS) t))"
    by blast
  let ?k1 = "upd_rq k cpu
           (\<lambda>rq. rq_add_tail rq (unat (sched_class (threads k t)))
                  (unat (dynamic_priority (threads k t)) mod PRIO_LEVELS_PER_CLASS) t)"
  have "all_rq rq_invariant ?k1"
  proof (rule all_rq_upd_rq[OF assms(1)])
    fix rq
    assume rq: "runqueues k cpu = Some rq" "rq_invariant rq"
    with assms(2) have "sum_counts rq < 2 ^ 32 - 1" by (auto simp: all_rq_def rq_room_def)
    with rq(2) assms(3) show "rq_invariant (rq_add_tail rq (unat (sched_class (threads k t)))
                  (unat (dynamic_priority (threads k t)) mod PRIO_LEVELS_PER_CLASS) t)"
      by (intro rq_add_tail_invariant level_in_range)
  qed
  with r show ?thesis by (simp add: all_rq_def)
qed

lemma all_rq_list_del_init:
  "all_rq rq_invariant (list_del_init k t) = all_rq rq_invariant k"
proof
  assume a: "all_rq rq_invariant (list_del_init k t)"
  show "all_rq rq_invariant k"
    unfolding all_rq_def
  proof (intro allI impI)
    fix cpu rq
    assume "runqueues k cpu = Some rq"
    then have "runqueues (list_del_init k t) cpu = Some (rq_unlink t rq)"
      by (simp add: list_del_init_def)
    with a have "rq_invariant (rq_unlink t rq)" by (simp add: all_rq_def)
    then show "rq_invariant rq" by (simp add: rq_unlink_invariant)
  qed
next
  assume "all_rq rq_invariant k"
  then show "all_rq rq_invariant (list_del_init k t)"
    by (auto simp: all_rq_def list_del_init_def rq_unlink_invariant)
qed

lemma dequeue_thread_invariant:
  assumes "all_rq rq_invariant k"
    and "unat (sched_class (threads k t)) < NUM_SCHED_CLASSES"
    and "\<And>rq. runqueues k (unat (last_cpu (threads k t))) = Some rq \<Longrightarrow>
           count_q (queues rq (unat (sched_class (threads k t)))
             (unat (dynamic_priority (threads k t)) mod PRIO_LEVELS_PER_CLASS)) \<noteq> 0"
    and "dequeue_thread k t = Some k'"
  shows "all_rq rq_invariant k'"
proof -
  let ?cpu = "unat (last_cpu (threads k t))"
  let ?c = "unat (sched_class (threads k t))"
  let ?p = "unat (dynamic_priority (threads k t)) mod PRIO_LEVELS_PER_CLASS"
  from assms(4) have k': "k' = upd_rq (list_del_init k t) ?cpu (\<lambda>rq. rq_account_del rq ?c ?p)"
    by (auto simp: dequeue_thread_def Let_def split: option.splits)
  have "all_rq rq_invariant (list_del_init k t)"
    using assms(1) by (simp add: all_rq_list_del_init)
  then have "all_rq rq_invariant (upd_rq (list_del_init k t) ?cpu (\<lambda>rq. rq_account_del rq ?c ?p))"
  proof (rule all_rq_upd_rq)
    fix rq
    assume rq: "runqueues (list_del_init k t) ?cpu = Some rq" "rq_invariant rq"
    then obtain rq0 where rq0: "runqueues k ?cpu = Some rq0" "rq = rq_unlink t rq0"
      by (auto simp: list_del_init_def)
    from assms(3)[OF rq0(1)] rq0(2) have "count_q (queues rq ?c ?p) \<noteq> 0"
      by (simp add: rq_unlink_def)
    with rq(2) assms(2) show "rq_invariant (rq_account_del rq ?c ?p)"
      by (intro rq_account_del_invariant level_in_range)
  qed
  with k' show ?thesis by simp
qed

lemma all_rq_cong: "runqueues k' = runqueues k \<Longrightarrow> all_rq P k' = all_rq P k"
  by (simp add: all_rq_def)

lemma rq_invariant_frame:
  "rq_invariant (rq\<lparr>clock := x\<rparr>) = rq_invariant rq"
  "rq_invariant (rq\<lparr>current := y\<rparr>) = rq_invariant rq"
  "rq_invariant (rq\<lparr>nr_switches := z\<rparr>) = rq_invariant rq"
  by (simp_all add: rq_invariant_def sum_counts_def)

lemma rq_consistent_cong:
  assumes "\<And>t. sched_class (ths' t) = sched_class (ths t)"
    and "\<And>t. dynamic_priority (ths' t) = dynamic_priority (ths t)"
  shows "rq_consistent ths' rq = rq_consistent ths rq"
  by (simp add: rq_consistent_def assms)

lemma rq_add_tail_queue:
  "queue (queues (rq_add_tail rq c p t) c' l) =
     (if c' = c \<and> l = p then queue (queues rq c p) @ [t] else queue (queues rq c' l))"
  by (simp add: rq_add_tail_def Let_def)

lemma rq_add_tail_consistent:
  assumes "rq_consistent ths rq" "rq_room rq"
    and c: "c < NUM_SCHED_CLASSES" and p: "p < PRIO_LEVELS_PER_CLASS"
    and "unat (sched_class (ths t)) = c"
    and "unat (dynamic_priority (ths t)) mod PRIO_LEVELS_PER_CLASS = p"
  shows "rq_consistent ths (rq_add_tail rq c p t)"
proof -
  have "unat (count_q (queues rq c p)) < 2 ^ 32 - 1"
    using count_le_sum[OF c p, of rq] assms(2) by (simp add: rq_room_def)
  then have "unat (count_q (queues rq c p) + 1) = unat (count_q (queues rq c p)) + 1"
    by (rule unat_inc)
  then have nz: "count_q (queues rq c p) + 1 \<noteq> 0"
    by (metis Suc_eq_plus1 nat.simps(3) unat_0)
  with assms show ?thesis
    by (auto simp: rq_consistent_def rq_add_tail_queue rq_add_tail_fields)
qed

lemma schedule_prev_threads:
  "sched_class (threads (schedule_prev k cpu now pv) t) = sched_class (threads k t)"
  "dynamic_priority (threads (schedule_prev k cpu now pv) t) = dynamic_priority (threads k t)"
  by (simp_all add: schedule_prev_def upd_thread_def upd_rq_def Let_def)

lemma schedule_prev_runqueues:
  "runqueues (schedule_prev k cpu now pv) = runqueues k
   \<or> runqueues (schedule_prev k cpu now pv) =
       runqueues (upd_rq k cpu (\<lambda>rq. rq_add_tail rq (unat (sched_class (threads k pv)))
          (unat (dynamic_priority (threads k pv)) mod PRIO_LEVELS_PER_CLASS) pv))"
  by (simp add: schedule_prev_def upd_thread_def upd_rq_def Let_def)

lemma schedule_prev_props:
  assumes inv: "all_rq rq_invariant k" and room: "all_rq rq_room k"
    and cons: "\<And>rq. runqueues k cpu = Some rq \<Longrightarrow> rq_consistent (threads k) rq"
    and cls: "unat (sched_class (threads k pv)) < NUM_SCHED_CLASSES"
  shows "all_rq rq_invariant (schedule_prev k cpu now pv)"
    and "\<And>rq. runqueues (schedule_prev k cpu now pv) cpu = Some rq \<Longrightarrow>
           rq_consistent (threads (schedule_prev k cpu now pv)) rq"
proof -
  let ?c = "unat (sched_class (threads k pv))"
  let ?p = "unat (dynamic_priority (threads k pv)) mod PRIO_LEVELS_PER_CLASS"
  let ?k1 = "upd_rq k cpu (\<lambda>rq. rq_add_tail rq ?c ?p pv)"
  let ?k' = "schedule_prev k cpu now pv"
  have cg: "\<And>rq. rq_consistent (threads ?k') rq = rq_consistent (threads k) rq"
    by (rule rq_consistent_cong) (simp_all add: schedule_prev_threads)
  have inv1: "all_rq rq_invariant ?k1"
  proof (rule all_rq_upd_rq[OF inv])
    fix rq
    assume rq: "runqueues k cpu = Some rq" "rq_invariant rq"
    with room have "sum_counts rq < 2 ^ 32 - 1" by (auto simp: all_rq_def rq_room_def)
    with rq(2) cls show "rq_invariant (rq_add_tail rq ?c ?p pv)"
      by (intro rq_add_tail_invariant level_in_range)
  qed
  have cons1: "rq_consistent (threads k) rq" if "runqueues ?k1 cpu = Some rq" for rq
  proof -
    from that obtain rq0 where rq0: "runqueues k cpu = Some rq0" "rq = rq_add_tail rq0 ?c ?p pv"
      by (auto simp: upd_rq_def)
    from room rq0(1) have "rq_room rq0" by (auto simp: all_rq_def)
    with cons[OF rq0(1)] cls show ?thesis
      unfolding rq0(2) by (intro rq_add_tail_consistent level_in_range) simp_all
  qed
  from schedule_prev_runqueues[of k cpu now pv] inv inv1
  show "all_rq rq_invariant ?k'" by (auto simp: all_rq_def)
  fix rq
  assume "runqueues ?k' cpu = Some rq"
  with schedule_prev_runqueues[of k cpu now pv] cons cons1
  have "rq_consistent (threads k) rq" by auto
  then show "rq_consistent (threads ?k') rq" by (simp add: cg)
qed

lemma schedule_dequeue_next_invariant:
  assumes inv: "all_rq rq_invariant k" and rq: "runqueues k cpu = Some rq"
    and cons: "rq_consistent (threads k) rq"
    and c: "c < NUM_SCHED_CLASSES" and l: "l < PRIO_LEVELS_PER_CLASS"
    and mem: "nxt \<in> set (queue (queues rq c l))"
  shows "all_rq rq_invariant (schedule_dequeue_next k cpu nxt)"
proof -
  from cons c l mem have f: "count_q (queues rq c l) \<noteq> 0"
    "unat (sched_class (threads k nxt)) = c"
    "unat (dynamic_priority (threads k nxt)) mod PRIO_LEVELS_PER_CLASS = l"
    by (auto simp: rq_consistent_def)
  have k': "schedule_dequeue_next k cpu nxt
            = upd_rq (list_del_init k nxt) cpu (\<lambda>rq. rq_account_del rq c l)"
    by (simp add: schedule_dequeue_next_def Let_def f)
  have "all_rq rq_invariant (list_del_init k nxt)"
    using inv by (simp add: all_rq_list_del_init)
  then have "all_rq rq_invariant (upd_rq (list_del_init k nxt) cpu (\<lambda>rq. rq_account_del rq c l))"
  proof (rule all_rq_upd_rq)
    fix rq1
    assume a: "runqueues (list_del_init k nxt) cpu = Some rq1" "rq_invariant rq1"
    with rq have "rq1 = rq_unlink nxt rq" by (simp add: list_del_init_def)
    with f(1) have "count_q (queues rq1 c l) \<noteq> 0" by (simp add: rq_unlink_def)
    with a(2) c l show "rq_invariant (rq_account_del rq1 c l)"
      by (intro rq_account_del_invariant)
  qed
  with k' show ?thesis by simp
qed

lemma rq_room_frame: "rq_room (rq\<lparr>clock := x\<rparr>) = rq_room rq"
  by (simp add: rq_room_def sum_counts_def)

lemma rq_consistent_frame: "rq_consistent ths (rq\<lparr>clock := x\<rparr>) = rq_consistent ths rq"
  by (simp add: rq_consistent_def)

lemma schedule_switch_stats_invariant:
  "all_rq rq_invariant k \<Longrightarrow> all_rq rq_invariant (schedule_switch_stats k cpu prev nxt)"
  by (auto simp: schedule_switch_stats_def Let_def all_rq_def upd_rq_def upd_thread_def
      rq_invariant_frame split: option.splits)

lemma schedule_outgoing_props:
  assumes inv: "all_rq rq_invariant k" and room: "all_rq rq_room k"
    and cons: "all_rq (rq_consistent (threads k)) k"
    and cls: "\<And>t. unat (sched_class (threads k t)) < NUM_SCHED_CLASSES"
  shows "all_rq rq_invariant (schedule_outgoing k cpu now prev)"
    and "\<And>rq. runqueues (schedule_outgoing k cpu now prev) cpu = Some rq \<Longrightarrow>
           rq_consistent (threads (schedule_outgoing k cpu now prev)) rq"
proof -
  define k1 where "k1 = upd_rq k cpu (\<lambda>rq. rq\<lparr>clock := now\<rparr>)"
  have k2: "schedule_outgoing k cpu now prev
            = (case prev of None \<Rightarrow> k1 | Some pv \<Rightarrow> schedule_prev k1 cpu now pv)"
    unfolding k1_def by (simp add: schedule_outgoing_def Let_def)
  have th1: "threads k1 = threads k" by (simp add: k1_def upd_rq_def)
  have inv1: "all_rq rq_invariant k1"
    unfolding k1_def using inv by (auto simp: all_rq_def upd_rq_def rq_invariant_frame)
  have room1: "all_rq rq_room k1"
    unfolding k1_def using room by (auto simp: all_rq_def upd_rq_def rq_room_frame)
  have cons1: "rq_consistent (threads k1) rq" if "runqueues k1 cpu = Some rq" for rq
    using that cons by (auto simp: k1_def all_rq_def upd_rq_def rq_consistent_frame)
  show "all_rq rq_invariant (schedule_outgoing k cpu now prev)"
  proof (cases prev)
    case None
    with inv1 show ?thesis unfolding k2 by simp
  next
    case (Some pv)
    have "all_rq rq_invariant (schedule_prev k1 cpu now pv)"
      using inv1 room1 cons1 cls[of pv] by (intro schedule_prev_props(1)) (simp_all add: th1)
    with Some show ?thesis unfolding k2 by simp
  qed
  fix rq
  assume r: "runqueues (schedule_outgoing k cpu now prev) cpu = Some rq"
  show "rq_consistent (threads (schedule_outgoing k cpu now prev)) rq"
  proof (cases prev)
    case None
    with r cons1 show ?thesis unfolding k2 by simp
  next
    case (Some pv)
    with r have "runqueues (schedule_prev k1 cpu now pv) cpu = Some rq" unfolding k2 by simp
    then have "rq_consistent (threads (schedule_prev k1 cpu now pv)) rq"
      using inv1 room1 cons1 cls[of pv] by (intro schedule_prev_props(2)) (simp_all add: th1)
    with Some show ?thesis unfolding k2 by simp
  qed
qed

lemma schedule_incoming_invariant:
  assumes inv2: "all_rq rq_invariant k2"
    and rq2: "runqueues k2 cpu = Some rq2" "pick_next_thread rq2 = Some nxt"
    and cons2: "rq_consistent (threads k2) rq2"
  shows "all_rq rq_invariant (schedule_incoming k2 cpu now prev nxt ci)"
proof -
  define k3 where "k3 = (if Some nxt \<noteq> Option.bind (runqueues k2 cpu) idle
                             \<and> state (threads k2 nxt) = THREAD_STATE_READY
                          then schedule_dequeue_next k2 cpu nxt else k2)"
  have inv3: "all_rq rq_invariant k3"
  proof (cases "Some nxt \<noteq> Option.bind (runqueues k2 cpu) idle
                \<and> state (threads k2 nxt) = THREAD_STATE_READY")
    case True
    with rq2(1) have "Some nxt \<noteq> idle rq2" by simp
    with pick_next_thread_member[OF rq2(2)] obtain c l where
      "c < NUM_SCHED_CLASSES" "l < PRIO_LEVELS_PER_CLASS" "nxt \<in> set (queue (queues rq2 c l))"
      by auto
    then have "all_rq rq_invariant (schedule_dequeue_next k2 cpu nxt)"
      using inv2 rq2(1) cons2 by (intro schedule_dequeue_next_invariant)
    moreover from True have "k3 = schedule_dequeue_next k2 cpu nxt"
      unfolding k3_def by (rule if_P)
    ultimately show ?thesis by simp
  next
    case False
    then have "k3 = k2" unfolding k3_def by (rule if_not_P)
    with inv2 show ?thesis by simp
  qed
  define k6 where "k6 =
     (upd_rq (upd_thread k3 nxt
                (\<lambda>th. th\<lparr>state := THREAD_STATE_RUNNING, last_run := now,
                         last_cpu := word_of_nat cpu, timeslice := timeslice_max th\<rparr>))
        cpu (\<lambda>rq. rq\<lparr>current := Some nxt\<rparr>))
       \<lparr>cpus := (cpus k3)(cpu := Some (ci\<lparr>current_thread := Some nxt\<rparr>))\<rparr>"
  have inv6: "all_rq rq_invariant k6"
    using inv3 by (auto simp: k6_def all_rq_def upd_rq_def upd_thread_def rq_invariant_frame)
  have c6: "cpus (upd_rq (upd_thread k3 nxt f) cpu g) = cpus k3" for f g
    by (simp add: upd_rq_def upd_thread_def)
  have "schedule_incoming k2 cpu now prev nxt ci
        = (if prev \<noteq> Some nxt then schedule_switch_stats k6 cpu prev nxt else k6)"
    unfolding schedule_incoming_def Let_def k3_def[symmetric] k6_def c6 ..
  with inv6 show ?thesis by (simp add: schedule_switch_stats_invariant)
qed

lemma schedule_body_invariant:
  assumes inv: "all_rq rq_invariant k" and room: "all_rq rq_room k"
    and cons: "all_rq (rq_consistent (threads k)) k"
    and cls: "\<And>t. unat (sched_class (threads k t)) < NUM_SCHED_CLASSES"
    and run: "schedule_body k cpu now = Some k'"
  shows "all_rq rq_invariant k'"
proof -
  from run obtain rq0 where rq0: "runqueues k cpu = Some rq0"
    by (cases "runqueues k cpu") (simp_all add: schedule_body_def)
  define k2 where "k2 = schedule_outgoing k cpu now (current rq0)"
  from run rq0 have run2:
    "(case Option.bind (runqueues k2 cpu) pick_next_thread of
        None \<Rightarrow> None
      | Some nxt \<Rightarrow>
          (case cpus k2 cpu of
             None \<Rightarrow> None
           | Some ci \<Rightarrow> Some (schedule_incoming k2 cpu now (current rq0) nxt ci))) = Some k'"
    unfolding k2_def by (simp add: schedule_body_def Let_def)
  then obtain nxt where n: "Option.bind (runqueues k2 cpu) pick_next_thread = Some nxt"
    by (cases "Option.bind (runqueues k2 cpu) pick_next_thread") simp_all
  then obtain rq2 where rq2: "runqueues k2 cpu = Some rq2" "pick_next_thread rq2 = Some nxt"
    by (cases "runqueues k2 cpu") simp_all
  from run2 n obtain ci where ci: "cpus k2 cpu = Some ci"
    by (cases "cpus k2 cpu") simp_all
  from run2 n ci have k': "k' = schedule_incoming k2 cpu now (current rq0) nxt ci" by simp
  have inv2: "all_rq rq_invariant k2"
    unfolding k2_def using inv room cons cls by (rule schedule_outgoing_props(1))
  have cons2: "rq_consistent (threads k2) rq2"
    using rq2(1) unfolding k2_def
    by (rule schedule_outgoing_props(2)[OF inv room cons cls])
  show ?thesis
    unfolding k' using inv2 rq2 cons2 by (rule schedule_incoming_invariant)
qed

lemma schedule_invariant:
  assumes "all_rq rq_invariant k" "all_rq rq_room k"
    and "all_rq (rq_consistent (threads k)) k"
    and "\<And>t. unat (sched_class (threads k t)) < NUM_SCHED_CLASSES"
    and "schedule k this_cpu now = Some k'"
  shows "all_rq rq_invariant k'"
proof (cases "schedule_body k this_cpu now = Some k'")
  case True
  with assms(1-4) show ?thesis by (rule schedule_body_invariant)
next
  case False
  with assms(5) have "k' = k"
    by (auto simp: schedule_def split: if_splits option.splits)
  with assms(1) show ?thesis by simp
qed

section \<open>Thread selection: results\<close>

lemma pick_next_thread_idle_when_empty:
  "nr_running rq = 0 \<Longrightarrow> pick_next_thread rq = idle rq"
  by (simp add: pick_next_thread_def)

text \<open>
  C1. The code on the run queue of CPU 1 after one freshly created thread (thread 7,
  Regular class, level 16) was enqueued on it: the invariant holds, \<open>nr_running\<close> is 1 and
  the thread is the head of \<open>queues[1][16]\<close>, yet \<open>pick_next_thread\<close> returns the idle
  thread (thread 1). The loop tests the bit of level \<open>p\<close> and then reads the queue of
  level \<open>31 - p\<close>.
\<close>

theorem pick_next_thread_misses_runnable:
  "(case rq_of (enqueue_thread two_cpu_kernel 1 7) 1 of
      None \<Rightarrow> False
    | Some rq \<Rightarrow>
        rq_invariant rq \<and> nr_running rq = 1 \<and> queue (queues rq 1 16) = [7]
        \<and> idle rq = Some 1 \<and> pick_next_thread rq = Some 1)"
  by code_simp

section \<open>CPU selection: results\<close>

text \<open>
  Where the shift is defined, the test \<open>affinity & (1ULL << cpu)\<close> reads bit \<open>cpu\<close> of the
  affinity mask.
\<close>

lemma cpu_bit_test:
  "cpu_bit c = Some b \<Longrightarrow> (w AND b \<noteq> 0) = bit w c"
  by (auto simp: cpu_bit_def and_exp_eq_0_iff_not_bit split: if_splits)

lemma first_allowed_cpu_find:
  "cpu \<le> ncpus \<Longrightarrow> ncpus \<le> 64 \<Longrightarrow>
   first_allowed_cpu affinity ncpus cpu =
     Some (case find (bit affinity) [cpu..<ncpus] of Some c \<Rightarrow> c | None \<Rightarrow> ncpus)"
proof (induction x \<equiv> "ncpus - cpu" arbitrary: cpu)
  case 0
  then have "cpu = ncpus" by simp
  then show ?case by simp
next
  case (Suc n)
  then have lt: "cpu < ncpus" and l: "[cpu..<ncpus] = cpu # [cpu + 1..<ncpus]"
    by (simp_all add: upt_conv_Cons)
  with Suc.prems have b: "cpu_bit cpu = Some (push_bit cpu 1)" by (simp add: cpu_bit_def)
  have t: "(affinity AND push_bit cpu 1 \<noteq> 0) = bit affinity cpu"
    by (rule cpu_bit_test[OF b])
  have ih: "first_allowed_cpu affinity ncpus (cpu + 1) =
     Some (case find (bit affinity) [cpu + 1..<ncpus] of Some c \<Rightarrow> c | None \<Rightarrow> ncpus)"
    using Suc by (intro Suc.hyps(1)) simp_all
  show ?case
    by (subst first_allowed_cpu.simps)
       (simp only: lt b l t ih if_True option.case find.simps split: if_splits, simp)
qed

text \<open>
  The CPU \<open>enqueue_thread\<close> selects, for CPU numbers on which the shifts are defined:
  \<open>preferred_cpu\<close> when it is in the affinity mask, else the lowest index below
  \<open>smp_info.cpu_count\<close> that is in the affinity mask, and the index \<open>cpu_count\<close> itself when
  there is none. The online mask does not occur. With \<open>preferred_cpu\<close> from 64 on, the
  first shift is undefined.
\<close>

lemma enqueue_select_cpu_code:
  assumes "unat (preferred_cpu th) < 64" "unat (cpu_count k) \<le> 64"
  shows "enqueue_select_cpu k th =
     Some (if cpu_allowed th (unat (preferred_cpu th)) then unat (preferred_cpu th)
           else case find (cpu_allowed th) [0..<unat (cpu_count k)] of
                  Some cpu \<Rightarrow> cpu
                | None \<Rightarrow> unat (cpu_count k))"
proof -
  have b: "cpu_bit (unat (preferred_cpu th)) = Some (push_bit (unat (preferred_cpu th)) 1)"
    using assms(1) by (simp add: cpu_bit_def)
  have a: "cpu_allowed th = bit (cpu_affinity th)"
    by (rule ext) (simp add: cpu_allowed_def)
  show ?thesis
    using first_allowed_cpu_find[of 0 "unat (cpu_count k)" "cpu_affinity th"] assms(2)
    by (simp add: enqueue_select_cpu_def b a Let_def and_exp_eq_0_iff_not_bit
        del: first_allowed_cpu.simps)
qed

lemma enqueue_select_cpu_undefined:
  "64 \<le> unat (preferred_cpu th) \<Longrightarrow> enqueue_select_cpu k th = None"
  by (simp add: enqueue_select_cpu_def cpu_bit_def)

text \<open>
  The selection of the code is the one the specification names when the online CPUs are
  exactly the indices below \<open>cpu_count\<close> (every processor came up) and the affinity mask
  holds one of them.
\<close>

lemma find_app:
  "find P (xs @ ys) = (case find P xs of None \<Rightarrow> find P ys | Some x \<Rightarrow> Some x)"
  by (induction xs) simp_all

lemma find_below:
  assumes "n \<le> m" "\<forall>c < m. R c = (c < n)"
  shows "find (\<lambda>c. Q c \<and> R c) [0..<m] = find Q [0..<n]"
proof -
  have s: "[0..<m] = [0..<n] @ [n..<m]"
    using assms(1) by (metis le_add_diff_inverse upt_add_eq_append zero_le)
  have a: "find (\<lambda>c. Q c \<and> R c) [0..<n] = find Q [0..<n]"
    using assms by (intro find_cong) auto
  have b: "find (\<lambda>c. Q c \<and> R c) [n..<m] = None"
    using assms by (auto simp: find_None_iff)
  show ?thesis
    unfolding s by (simp add: find_app a b split: option.splits)
qed

lemma enqueue_select_cpu_agrees:
  assumes "unat (preferred_cpu th) < 64" "unat (cpu_count k) \<le> 64"
    and on: "\<forall>c < MAX_CPUS. cpu_isset c (online_mask k) = (c < unat (cpu_count k))"
    and ex: "cpu_allowed th (unat (preferred_cpu th))
             \<or> (\<exists>c < unat (cpu_count k). cpu_allowed th c)"
  shows "enqueue_select_cpu k th = claimed_select_cpu k th"
proof (cases "cpu_allowed th (unat (preferred_cpu th))")
  case True
  then show ?thesis
    by (simp add: enqueue_select_cpu_code[OF assms(1,2)] claimed_select_cpu_def)
next
  case False
  with ex obtain c where c: "c < unat (cpu_count k)" "cpu_allowed th c" by auto
  have le: "unat (cpu_count k) \<le> MAX_CPUS" using assms(2) by (simp add: MAX_CPUS_def)
  have f: "find (\<lambda>cpu. cpu_allowed th cpu \<and> cpu_isset cpu (online_mask k)) [0..<MAX_CPUS]
           = find (cpu_allowed th) [0..<unat (cpu_count k)]"
    by (rule find_below[OF le on])
  from c have "find (cpu_allowed th) [0..<unat (cpu_count k)] \<noteq> None"
    by (auto simp: find_None_iff)
  then obtain d where d: "find (cpu_allowed th) [0..<unat (cpu_count k)] = Some d" by auto
  show ?thesis
    using False by (simp add: enqueue_select_cpu_code[OF assms(1,2)] claimed_select_cpu_def f d)
qed

text \<open>
  C5. The code after CPU 1 failed to boot: \<open>cpu_count\<close> is 3, the online CPUs are
  \<open>{0, 2, 3}\<close> and \<open>runqueues[1]\<close> is \<open>NULL\<close>. Thread 12 has the affinity mask \<open>{1, 2}\<close> and
  \<open>preferred_cpu = 0\<close>, which the mask does not allow. The lowest CPU in the affinity mask
  and the online mask is CPU 2, whose run queue exists; \<open>enqueue_thread\<close> selects CPU 1,
  which is offline, and dereferences its \<open>NULL\<close> run queue. Its loop runs over the indices
  below \<open>cpu_count\<close> and tests the affinity bit only, where the loops of
  \<open>trigger_load_balance\<close> and \<open>set_thread_affinity\<close> also test \<open>online_mask\<close>.
\<close>

theorem enqueue_thread_selects_offline_cpu:
  "cpu_count cpu1_failed_kernel = 3
   \<and> cpu_isset 0 (online_mask cpu1_failed_kernel)
   \<and> \<not> cpu_isset 1 (online_mask cpu1_failed_kernel)
   \<and> cpu_isset 2 (online_mask cpu1_failed_kernel)
   \<and> Option.is_none (runqueues cpu1_failed_kernel 1)
   \<and> \<not> Option.is_none (runqueues cpu1_failed_kernel 2)
   \<and> preferred_cpu (threads cpu1_failed_kernel 12) = 0
   \<and> map (cpu_allowed (threads cpu1_failed_kernel 12)) [0, 1, 2, 3] = [False, True, True, False]
   \<and> claimed_select_cpu cpu1_failed_kernel (threads cpu1_failed_kernel 12) = Some 2
   \<and> enqueue_select_cpu cpu1_failed_kernel (threads cpu1_failed_kernel 12) = Some 1
   \<and> Option.is_none (enqueue_thread cpu1_failed_kernel 0 12)"
  by code_simp

section \<open>Run-queue invariant: results\<close>

text \<open>
  C2. The code on two CPUs where CPU 1 holds the ready threads 7 (Regular) and 8
  (TimeCritical) and CPU 0 is empty: both run queues satisfy the invariant, CPU 0 runs
  \<open>trigger_load_balance\<close> and pulls thread 7, and the run queue of CPU 1 is left with
  bit 1 set in \<open>class_bitmap\<close> although \<open>active_bitmap[1]\<close> is zero. The migration step
  clears the level bit only; \<open>dequeue_thread\<close> and \<open>schedule\<close> also clear the class bit.
\<close>

theorem trigger_load_balance_breaks_invariant:
  "(case rq_of loaded_kernel 0 of None \<Rightarrow> False | Some rq \<Rightarrow> rq_invariant rq)
   \<and> (case rq_of loaded_kernel 1 of None \<Rightarrow> False | Some rq \<Rightarrow> rq_invariant rq)
   \<and> (case rq_of (Option.bind loaded_kernel (\<lambda>k. trigger_load_balance k 0 5000000)) 0 of
        None \<Rightarrow> False
      | Some rq \<Rightarrow> queue (queues rq 1 16) = [7] \<and> rq_invariant rq)
   \<and> (case rq_of (Option.bind loaded_kernel (\<lambda>k. trigger_load_balance k 0 5000000)) 1 of
        None \<Rightarrow> False
      | Some rq \<Rightarrow>
          \<not> rq_invariant rq \<and> class_bitmap rq AND class_bit 1 \<noteq> 0
          \<and> active_bitmap rq 1 = 0 \<and> unat (nr_running rq) = sum_counts rq)"
  by code_simp

section \<open>NUMA accounting: results\<close>

text \<open>
  C3. The code on node 0 of the initial state after both pages of its order-1 block were
  allocated and page 0 was released: \<open>free_pages\<close> is 1 and equals the counted pages.
  Releasing page 1 merges it with its free buddy: the counted pages are 2 (one block of
  order 1) but \<open>free_pages\<close> is 3, because the merge loop has raised \<open>order\<close> before
  \<open>free_pages += (1 << order)\<close> is executed.
\<close>

theorem numa_free_pages_breaks_invariant:
  "node0_counters (Some two_node_topology) = Some (2, 2, True)
   \<and> node0_counters (free0 0 (alloc0 1 (alloc0 0 (Some two_node_topology)))) = Some (1, 1, True)
   \<and> node0_counters (free0 1 (free0 0 (alloc0 1 (alloc0 0 (Some two_node_topology)))))
       = Some (3, 2, False)"
  by code_simp

text \<open>
  C4. The code at the state \<open>one_page_left\<close>: \<open>free_pages\<close> of node 0 is 1; the order-0
  allocation on node 0 succeeds with page 1 and leaves 0; releasing page 1 at order 0
  leaves 2.
\<close>

theorem alloc_free_round_trip_fails:
  "node0_free_pages one_page_left = Some 1
   \<and> node0_free_pages (alloc0 1 one_page_left) = Some 0
   \<and> node0_free_pages (free0 1 (alloc0 1 one_page_left)) = Some 2"
  by code_simp

section \<open>Fallback order: results\<close>

declare bubble_inner.simps [simp del]
declare bubble_outer.simps [simp del]
declare copy_indices.simps [simp del]
declare build_rows.simps [simp del]

lemma bubble_inner_step:
  "bubble_inner d row k lim =
     (if k < lim then
        (if d (unat (row k)) > d (unat (row (k + 1)))
         then bubble_inner d (row(k := row (k + 1), k + 1 := row k)) (k + 1) lim
         else bubble_inner d row (k + 1) lim)
      else row)"
  by (subst bubble_inner.simps) (simp add: Let_def)

lemma bubble_inner_outside:
  "m < k \<or> lim < m \<Longrightarrow> bubble_inner d row k lim m = row m"
proof (induction x \<equiv> "lim - k" arbitrary: k row)
  case 0
  then show ?case by (subst bubble_inner_step) simp
next
  case (Suc x)
  then have kl: "k < lim" and x: "x = lim - (k + 1)" by simp_all
  have m: "m < k + 1 \<or> lim < m" "m \<noteq> k" "m \<noteq> k + 1" using Suc.prems kl by auto
  show ?case
    using Suc.hyps(1)[OF x m(1)] kl m(2,3)
    by (subst bubble_inner_step) simp
qed

lemma bubble_inner_from:
  "k \<le> m \<Longrightarrow> m \<le> lim \<Longrightarrow> \<exists>m'. k \<le> m' \<and> m' \<le> lim \<and> bubble_inner d row k lim m = row m'"
proof (induction x \<equiv> "lim - k" arbitrary: k row)
  case 0
  then have "bubble_inner d row k lim = row" by (subst bubble_inner_step) simp
  with 0 show ?case by (intro exI[of _ m]) simp
next
  case (Suc x)
  then have kl: "k < lim" and x: "x = lim - (k + 1)" by simp_all
  define row' where "row' = (if d (unat (row k)) > d (unat (row (k + 1)))
      then row(k := row (k + 1), k + 1 := row k) else row)"
  have eq: "bubble_inner d row k lim = bubble_inner d row' (k + 1) lim"
    using kl by (subst bubble_inner_step) (simp add: row'_def)
  have src: "\<exists>j. k \<le> j \<and> j \<le> lim \<and> row' i = row j" if "k \<le> i" "i \<le> lim" for i
  proof (cases "d (unat (row k)) > d (unat (row (k + 1)))")
    case True
    show ?thesis
    proof (cases "i = k")
      case True
      with \<open>d (unat (row k)) > d (unat (row (k + 1)))\<close> kl show ?thesis
        by (intro exI[of _ "k + 1"]) (simp add: row'_def)
    next
      case ik: False
      show ?thesis
      proof (cases "i = k + 1")
        case True
        with \<open>d (unat (row k)) > d (unat (row (k + 1)))\<close> kl show ?thesis
          by (intro exI[of _ k]) (simp add: row'_def)
      next
        case False
        with ik that show ?thesis by (intro exI[of _ i]) (simp add: row'_def)
      qed
    qed
  next
    case False
    with that show ?thesis by (intro exI[of _ i]) (simp add: row'_def)
  qed
  show ?case
  proof (cases "m = k")
    case True
    then have "bubble_inner d row' (k + 1) lim m = row' m"
      by (intro bubble_inner_outside) simp
    with src[of m] Suc.prems eq show ?thesis by simp
  next
    case False
    with Suc.prems have "k + 1 \<le> m" by simp
    from Suc.hyps(1)[OF x this Suc.prems(2), of row']
    obtain m' where m': "k + 1 \<le> m'" "m' \<le> lim" "bubble_inner d row' (k + 1) lim m = row' m'"
      by blast
    from src[of m'] m' obtain j where "k \<le> j" "j \<le> lim" "row' m' = row j" by auto
    with m' eq show ?thesis by (intro exI[of _ j]) simp
  qed
qed

lemma bubble_inner_max:
  "k \<le> lim \<Longrightarrow> \<forall>m\<le>k. d (unat (row m)) \<le> d (unat (row k)) \<Longrightarrow>
   m \<le> lim \<Longrightarrow>
   d (unat (bubble_inner d row k lim m)) \<le> d (unat (bubble_inner d row k lim lim))"
proof (induction x \<equiv> "lim - k" arbitrary: k row)
  case 0
  then have "k = lim" by simp
  moreover have "bubble_inner d row lim lim = row" by (subst bubble_inner_step) simp
  ultimately show ?case using 0 by simp
next
  case (Suc x)
  then have kl: "k < lim" and x: "x = lim - (k + 1)" by simp_all
  define row' where "row' = (if d (unat (row k)) > d (unat (row (k + 1)))
      then row(k := row (k + 1), k + 1 := row k) else row)"
  have eq: "bubble_inner d row k lim = bubble_inner d row' (k + 1) lim"
    using kl by (subst bubble_inner_step) (simp add: row'_def)
  have pre: "\<forall>m\<le>k + 1. d (unat (row' m)) \<le> d (unat (row' (k + 1)))"
  proof (intro allI impI)
    fix i assume i: "i \<le> k + 1"
    show "d (unat (row' i)) \<le> d (unat (row' (k + 1)))"
    proof (cases "d (unat (row k)) > d (unat (row (k + 1)))")
      case True
      then have r: "row' (k + 1) = row k" "row' k = row (k + 1)" "\<And>j. j < k \<Longrightarrow> row' j = row j"
        by (simp_all add: row'_def)
      consider "i < k" | "i = k" | "i = k + 1" using i by linarith
      then show ?thesis
      proof cases
        case 1 with r Suc.prems(2) show ?thesis by simp
      next
        case 2 with r True show ?thesis by simp
      next
        case 3 then show ?thesis by simp
      qed
    next
      case False
      then have r: "row' = row" by (simp add: row'_def)
      consider "i \<le> k" | "i = k + 1" using i by linarith
      then show ?thesis
      proof cases
        case 1
        with Suc.prems(2) have "d (unat (row i)) \<le> d (unat (row k))" by simp
        with False r show ?thesis by simp
      next
        case 2 then show ?thesis by simp
      qed
    qed
  qed
  from kl have "k + 1 \<le> lim" by simp
  from Suc.hyps(1)[OF x this pre Suc.prems(3)] eq show ?case by simp
qed

lemma stab_swap:
  assumes "stab d row n" "k + 1 < n" "d (unat (row k)) > d (unat (row (k + 1)))"
  shows "stab d (row(k := row (k + 1), k + 1 := row k)) n"
  unfolding stab_def
proof (intro allI impI)
  fix a b
  let ?r = "row(k := row (k + 1), k + 1 := row k)"
  assume h: "a < b \<and> b < n \<and> d (unat (?r a)) = d (unat (?r b))"
  have old: "\<And>a b. a < b \<Longrightarrow> b < n \<Longrightarrow> d (unat (row a)) = d (unat (row b)) \<Longrightarrow> unat (row a) < unat (row b)"
    using assms(1) by (auto simp: stab_def)
  consider "a = k" "b = k + 1" | "a = k" "b > k + 1" | "a = k + 1" | "a < k" "b = k" | "a < k" "b = k + 1"
    | "a \<noteq> k" "a \<noteq> k + 1" "b \<noteq> k" "b \<noteq> k + 1"
    using h by linarith
  then show "unat (?r a) < unat (?r b)"
  proof cases
    case 1 with h assms(3) show ?thesis by simp
  next
    case 2 with h old[of "k + 1" b] show ?thesis by simp
  next
    case 3 with h old[of k b] show ?thesis by simp
  next
    case 4 with h old[of a "k + 1"] assms(2) show ?thesis by simp
  next
    case 5 with h old[of a k] assms(2) show ?thesis by simp
  next
    case 6 with h old[of a b] show ?thesis by simp
  qed
qed

lemma bubble_inner_stab:
  "stab d row n \<Longrightarrow> lim < n \<Longrightarrow> stab d (bubble_inner d row k lim) n"
proof (induction x \<equiv> "lim - k" arbitrary: k row)
  case 0
  then show ?case by (subst bubble_inner_step) simp
next
  case (Suc x)
  then have kl: "k < lim" and x: "x = lim - (k + 1)" by simp_all
  show ?case
  proof (cases "d (unat (row k)) > d (unat (row (k + 1)))")
    case True
    have "stab d (row(k := row (k + 1), k + 1 := row k)) n"
      using Suc.prems kl True by (intro stab_swap) simp_all
    from Suc.hyps(1)[OF x this Suc.prems(2)] kl True show ?thesis
      by (subst bubble_inner_step) simp
  next
    case False
    from Suc.hyps(1)[OF x Suc.prems] kl False show ?thesis
      by (subst bubble_inner_step) simp
  qed
qed

lemma map_fun_upd_upt:
  "k < n \<Longrightarrow> map (f(k := v)) [0..<n] = (map f [0..<n])[k := v]"
  by (rule nth_equalityI) (auto simp: nth_list_update)

lemma mset_row_swap:
  assumes "k + 1 < n"
  shows "mset (map (row(k := row (k + 1), k + 1 := row k)) [0..<n]) = mset (map row [0..<n])"
proof -
  let ?ls = "map row [0..<n]"
  have "map (row(k := row (k + 1), k + 1 := row k)) [0..<n] = ?ls[k := ?ls ! (k + 1), k + 1 := ?ls ! k]"
    using assms by (simp add: map_fun_upd_upt)
  moreover have "mset (?ls[k := ?ls ! (k + 1), k + 1 := ?ls ! k]) = mset ?ls"
    using assms by (intro mset_swap) simp_all
  ultimately show ?thesis by simp
qed

lemma bubble_inner_mset:
  "lim < n \<Longrightarrow> mset (map (bubble_inner d row k lim) [0..<n]) = mset (map row [0..<n])"
proof (induction x \<equiv> "lim - k" arbitrary: k row)
  case 0
  then show ?case by (subst bubble_inner_step) simp
next
  case (Suc x)
  then have kl: "k < lim" and x: "x = lim - (k + 1)" by simp_all
  show ?case
  proof (cases "d (unat (row k)) > d (unat (row (k + 1)))")
    case True
    have "mset (map (row(k := row (k + 1), k + 1 := row k)) [0..<n]) = mset (map row [0..<n])"
      using kl Suc.prems by (intro mset_row_swap) simp
    with Suc.hyps(1)[OF x Suc.prems, of "row(k := row (k + 1), k + 1 := row k)"] kl True
    show ?thesis by (subst bubble_inner_step) simp
  next
    case False
    from Suc.hyps(1)[OF x Suc.prems, of row] kl False show ?thesis
      by (subst bubble_inner_step) simp
  qed
qed

lemma bubble_outer_step:
  "bubble_outer d row j n =
     (if j < n - 1 then bubble_outer d (bubble_inner d row 0 (n - j - 1)) (j + 1) n else row)"
  by (subst bubble_outer.simps) simp

lemma bubble_pass_sufsorted:
  assumes "j < n - 1" "sufsorted d row j n"
  shows "sufsorted d (bubble_inner d row 0 (n - j - 1)) (j + 1) n"
  unfolding sufsorted_def
proof (intro allI impI)
  fix a b
  let ?lim = "n - j - 1"
  let ?r = "bubble_inner d row 0 ?lim"
  assume h: "a \<le> b \<and> n - (j + 1) \<le> b \<and> b < n"
  have old: "\<And>a b. a \<le> b \<Longrightarrow> n - j \<le> b \<Longrightarrow> b < n \<Longrightarrow> d (unat (row a)) \<le> d (unat (row b))"
    using assms(2) by (auto simp: sufsorted_def)
  show "d (unat (?r a)) \<le> d (unat (?r b))"
  proof (cases "b = ?lim")
    case True
    with h have "a \<le> ?lim" by simp
    then have "d (unat (?r a)) \<le> d (unat (?r ?lim))"
      by (intro bubble_inner_max) simp_all
    with True show ?thesis by simp
  next
    case False
    with h have b: "?lim < b" by simp
    then have rb: "?r b = row b" by (intro bubble_inner_outside) simp
    show ?thesis
    proof (cases "a \<le> ?lim")
      case True
      from bubble_inner_from[of 0 a ?lim d row] True
      obtain a' where a': "a' \<le> ?lim" "?r a = row a'" by auto
      with b h assms(1) old[of a' b] rb show ?thesis by simp
    next
      case False
      then have "?r a = row a" by (intro bubble_inner_outside) simp
      with b h assms(1) old[of a b] rb show ?thesis by simp
    qed
  qed
qed

lemma bubble_outer_sorted:
  "j \<le> n - 1 \<Longrightarrow> sufsorted d row j n \<Longrightarrow> a \<le> b \<Longrightarrow> b < n \<Longrightarrow>
   d (unat (bubble_outer d row j n a)) \<le> d (unat (bubble_outer d row j n b))"
proof (induction x \<equiv> "n - 1 - j" arbitrary: j row)
  case 0
  then have j: "j = n - 1" by simp
  have r: "bubble_outer d row j n = row" using j by (subst bubble_outer_step) simp
  show ?case
  proof (cases "b = 0")
    case True
    with 0 show ?thesis by simp
  next
    case False
    with 0 j have "n - j \<le> b" by simp
    with 0 r show ?thesis by (auto simp: sufsorted_def)
  qed
next
  case (Suc x)
  then have jn: "j < n - 1" and x: "x = n - 1 - (j + 1)" by simp_all
  have s: "sufsorted d (bubble_inner d row 0 (n - j - 1)) (j + 1) n"
    using jn Suc.prems(2) by (rule bubble_pass_sufsorted)
  from jn have "j + 1 \<le> n - 1" by simp
  from Suc.hyps(1)[OF x this s Suc.prems(3,4)] jn show ?case
    by (subst (1 2) bubble_outer_step) simp
qed

lemma bubble_outer_stab:
  "stab d row n \<Longrightarrow> stab d (bubble_outer d row j n) n"
proof (induction x \<equiv> "n - 1 - j" arbitrary: j row)
  case 0
  then have "\<not> j < n - 1" by linarith
  with 0 show ?case by (subst bubble_outer_step) simp
next
  case (Suc x)
  then have jn: "j < n - 1" and x: "x = n - 1 - (j + 1)" by simp_all
  have "stab d (bubble_inner d row 0 (n - j - 1)) n"
    using Suc.prems jn by (intro bubble_inner_stab) simp_all
  from Suc.hyps(1)[OF x this] jn show ?case by (subst bubble_outer_step) simp
qed

lemma bubble_outer_mset:
  "mset (map (bubble_outer d row j n) [0..<n]) = mset (map row [0..<n])"
proof (induction x \<equiv> "n - 1 - j" arbitrary: j row)
  case 0
  then have "\<not> j < n - 1" by linarith
  then show ?case by (subst bubble_outer_step) simp
next
  case (Suc x)
  then have jn: "j < n - 1" and x: "x = n - 1 - (j + 1)" by simp_all
  have "mset (map (bubble_inner d row 0 (n - j - 1)) [0..<n]) = mset (map row [0..<n])"
    using jn by (intro bubble_inner_mset) simp
  with Suc.hyps(1)[OF x, of "bubble_inner d row 0 (n - j - 1)"] jn show ?case
    by (subst bubble_outer_step) simp
qed

lemma copy_indices_nth:
  "copy_indices row j n m = (if j \<le> m \<and> m < n then word_of_nat m else row m)"
proof (induction x \<equiv> "n - j" arbitrary: j row)
  case 0
  then have "\<not> j < n" by linarith
  then show ?case by (subst copy_indices.simps) auto
next
  case (Suc x)
  then have jn: "j < n" and x: "x = n - (j + 1)" by simp_all
  from Suc.hyps(1)[OF x, of "row(j := word_of_nat j)"] jn show ?case
    by (subst copy_indices.simps) auto
qed

lemma unat_index: "m < 256 \<Longrightarrow> unat (word_of_nat m :: u8) = m"
  by (simp add: unat_of_nat)

lemma build_rows_result:
  "num_nodes (build_rows st i) = num_nodes st \<and> distance (build_rows st i) = distance st
   \<and> (\<forall>m. fallback (build_rows st i) m =
        (if i \<le> m \<and> m < unat (num_nodes st)
         then bubble_outer (distance st m)
                (copy_indices (fallback st m) 0 (unat (num_nodes st))) 0 (unat (num_nodes st))
         else fallback st m))"
proof (induction x \<equiv> "unat (num_nodes st) - i" arbitrary: i st)
  case 0
  then have "\<not> i < unat (num_nodes st)" by linarith
  then have "build_rows st i = st" by (subst build_rows.simps) (simp add: Let_def)
  with \<open>\<not> i < unat (num_nodes st)\<close> show ?case by auto
next
  case (Suc x)
  let ?n = "unat (num_nodes st)"
  let ?row = "bubble_outer (distance st i) (copy_indices (fallback st i) 0 ?n) 0 ?n"
  let ?st = "st\<lparr>fallback := (fallback st)(i := ?row)\<rparr>"
  from Suc have lt: "i < ?n" and x: "x = unat (num_nodes ?st) - (i + 1)" by simp_all
  have eq: "build_rows st i = build_rows ?st (i + 1)"
    using lt by (subst build_rows.simps) (simp add: Let_def)
  from Suc.hyps(1)[OF x] lt show ?case
    unfolding eq by auto
qed

text \<open>
  C8. After \<open>numa_build_fallback_order\<close>, for every node \<open>i\<close> the row \<open>fallback[i]\<close> is a
  permutation of all node indices, in ascending order of \<open>distance[i][.]\<close>, and entries
  at equal distance are in ascending order of node index.
\<close>

theorem fallback_row_sorted:
  assumes "unat (num_nodes st) \<le> MAX_NUMA_NODES" "i < unat (num_nodes st)"
  shows "mset (fallback_row (numa_build_fallback_order st) i) = mset [0..<unat (num_nodes st)]
         \<and> sorted_wrt (closer st i) (fallback_row (numa_build_fallback_order st) i)"
proof -
  let ?n = "unat (num_nodes st)"
  let ?d = "distance st i"
  let ?row0 = "copy_indices (fallback st i) 0 ?n"
  let ?R = "bubble_outer ?d ?row0 0 ?n"
  have n256: "?n \<le> 256" using assms(1) by (simp add: MAX_NUMA_NODES_def)
  have res: "num_nodes (numa_build_fallback_order st) = num_nodes st"
    "fallback (numa_build_fallback_order st) i = ?R"
    using build_rows_result[of st 0] assms(2) by (simp_all add: numa_build_fallback_order_def)
  have row: "fallback_row (numa_build_fallback_order st) i = map (\<lambda>j. unat (?R j)) [0..<?n]"
    by (simp add: fallback_row_def res)
  have r0: "\<And>m. m < ?n \<Longrightarrow> unat (?row0 m) = m"
    using n256 by (simp add: copy_indices_nth unat_index)
  have "map (\<lambda>j. unat (?R j)) [0..<?n] = map unat (map ?R [0..<?n])" by simp
  then have "mset (map (\<lambda>j. unat (?R j)) [0..<?n]) = image_mset unat (mset (map ?R [0..<?n]))"
    by (simp only: mset_map)
  also have "\<dots> = image_mset unat (mset (map ?row0 [0..<?n]))"
    by (simp only: bubble_outer_mset)
  also have "\<dots> = mset (map unat (map ?row0 [0..<?n]))" by (simp only: mset_map)
  also have "map unat (map ?row0 [0..<?n]) = map (\<lambda>j. unat (?row0 j)) [0..<?n]" by simp
  also have "map (\<lambda>j. unat (?row0 j)) [0..<?n] = [0..<?n]"
    by (rule map_idI) (simp add: r0)
  finally have perm: "mset (map (\<lambda>j. unat (?R j)) [0..<?n]) = mset [0..<?n]" .
  have st0: "stab ?d ?row0 ?n"
    unfolding stab_def using r0 by auto
  then have stR: "stab ?d ?R ?n" by (rule bubble_outer_stab)
  have suf0: "sufsorted ?d ?row0 0 ?n" unfolding sufsorted_def by auto
  have le: "\<And>a b. a \<le> b \<Longrightarrow> b < ?n \<Longrightarrow> ?d (unat (?R a)) \<le> ?d (unat (?R b))"
    using suf0 by (intro bubble_outer_sorted) simp_all
  have "sorted_wrt (closer st i) (map (\<lambda>j. unat (?R j)) [0..<?n])"
    unfolding sorted_wrt_iff_nth_less
  proof (intro allI impI)
    fix a b
    assume ab: "a < b" and b: "b < length (map (\<lambda>j. unat (?R j)) [0..<?n])"
    then have bn: "b < ?n" by simp
    from le[of a b] ab bn have l: "?d (unat (?R a)) \<le> ?d (unat (?R b))" by simp
    have "closer st i (unat (?R a)) (unat (?R b))"
    proof (cases "?d (unat (?R a)) = ?d (unat (?R b))")
      case True
      with stR ab bn have "unat (?R a) < unat (?R b)" by (auto simp: stab_def)
      with True show ?thesis by (simp add: closer_def)
    next
      case False
      with l show ?thesis by (simp add: closer_def)
    qed
    with ab bn show "closer st i (map (\<lambda>j. unat (?R j)) [0..<?n] ! a)
        (map (\<lambda>j. unat (?R j)) [0..<?n] ! b)" by simp
  qed
  with perm row show ?thesis by simp
qed

theorem fallback_row_sorted_witness:
  "unat (num_nodes four_node_raw) \<le> MAX_NUMA_NODES \<and> 1 < unat (num_nodes four_node_raw)
   \<and> fallback_row (numa_build_fallback_order four_node_raw) 1 = [1, 3, 0, 2]
   \<and> mset (fallback_row (numa_build_fallback_order four_node_raw) 1)
       = mset [0..<unat (num_nodes four_node_raw)]
   \<and> sorted_wrt (closer four_node_raw 1) (fallback_row (numa_build_fallback_order four_node_raw) 1)"
proof -
  have a: "unat (num_nodes four_node_raw) \<le> MAX_NUMA_NODES" by code_simp
  have b: "1 < unat (num_nodes four_node_raw)" by code_simp
  have c: "fallback_row (numa_build_fallback_order four_node_raw) 1 = [1, 3, 0, 2]" by code_simp
  show ?thesis using fallback_row_sorted [OF a b] a b c by simp
qed

section \<open>NUMA accounting: what the allocation and release paths do to the invariant\<close>

text \<open>
  Both allocation functions keep \<open>free_pages = sum of free_count[k] * 2^k\<close> on every node.
  \<open>numa_free_pages\<close> raises the counted pages by \<open>2^order\<close> and \<open>free_pages\<close> by
  \<open>2^order1\<close>, where \<open>order1\<close> is the order the merge loop ends with: it keeps the
  invariant exactly when no merge takes place.
\<close>

declare split_block.simps [simp del]
declare alloc_split.simps [simp del]
declare alloc_fallback.simps [simp del]

lemma counted_pages_upd:
  assumes "k < MAX_ORDER h" "\<And>j. j \<noteq> k \<Longrightarrow> free_count nmi' j = free_count nmi j"
  shows "counted_pages h nmi' + unat (free_count nmi k) * 2 ^ k
         = counted_pages h nmi + unat (free_count nmi' k) * 2 ^ k"
  unfolding counted_pages_def using assms
  by (intro sum_list_upd) simp_all

lemma block_le_counted:
  assumes "k < MAX_ORDER h"
  shows "unat (free_count nmi k) * 2 ^ k \<le> counted_pages h nmi"
  unfolding counted_pages_def using assms
  by (intro member_le_sum_list) auto

lemma unat_block: "order < 64 \<Longrightarrow> unat (2 ^ order :: u64) = 2 ^ order"
proof -
  assume a: "order < 64"
  have "(2 ^ order :: u64) = word_of_nat (2 ^ order)" by simp
  then have "unat (2 ^ order :: u64) = 2 ^ order mod 2 ^ 64"
    by (simp only: unat_of_nat) simp
  moreover have "(2 :: nat) ^ order < 2 ^ 64"
    using a by (intro power_strict_increasing) simp_all
  ultimately show ?thesis by simp
qed

lemma counted_dec:
  assumes "k < MAX_ORDER h" "free_count nmi k \<noteq> 0"
    and "\<And>j. j \<noteq> k \<Longrightarrow> free_count nmi' j = free_count nmi j"
    and "free_count nmi' k = free_count nmi k - 1"
  shows "counted_pages h nmi' + 2 ^ k = counted_pages h nmi"
proof -
  have "unat (free_count nmi' k) = unat (free_count nmi k) - 1"
    using assms(2,4) by (simp add: unat_minus_one)
  moreover have "0 < unat (free_count nmi k)" using assms(2) by (simp add: unat_gt_0)
  ultimately have "unat (free_count nmi k) * 2 ^ k = unat (free_count nmi' k) * 2 ^ k + 2 ^ k"
    by (cases "unat (free_count nmi k)") simp_all
  with counted_pages_upd[of k h nmi' nmi] assms(1,3) show ?thesis by simp
qed

lemma sub_block:
  assumes "unat fp = n" "2 ^ order \<le> n" "order < 64"
  shows "unat (fp - 2 ^ order :: u64) = n - 2 ^ order"
proof -
  have "2 ^ order \<le> fp"
    using assms by (simp add: word_le_nat_alt unat_block)
  then have "unat (fp - 2 ^ order) = unat fp - unat (2 ^ order :: u64)"
    by (rule unat_sub)
  with assms show ?thesis by (simp add: unat_block)
qed

lemma take_first_invariant:
  assumes inv: "node_invariant h nmi" and ord: "order < MAX_ORDER h" "MAX_ORDER h \<le> 64"
    and cnt: "free_count nmi order \<noteq> 0"
    and run: "take_first nmi order = Some (pg, nmi')"
  shows "node_invariant h nmi'"
proof -
  from run obtain rest where
    nmi': "nmi' = nmi\<lparr>free_list := (free_list nmi)(order := rest),
                      free_count := (free_count nmi)(order := free_count nmi order - 1),
                      free_pages := free_pages nmi - push_bit order 1\<rparr>"
    by (auto simp: take_first_def split: list.splits)
  have c: "counted_pages h nmi' + 2 ^ order = counted_pages h nmi"
    using ord(1) cnt by (rule counted_dec) (simp_all add: nmi')
  from inv have fp: "unat (free_pages nmi) = counted_pages h nmi" by (simp add: node_invariant_def)
  have "unat (free_pages nmi') = counted_pages h nmi - 2 ^ order"
  proof -
    have "2 ^ order \<le> counted_pages h nmi" using c by linarith
    with fp ord show ?thesis unfolding nmi' by (simp add: sub_block)
  qed
  with c show ?thesis by (simp add: node_invariant_def)
qed

lemma split_block_step:
  "split_block nmi pg i order =
     (if i > order then
        split_block
          (nmi\<lparr>free_list := (free_list nmi)(i - 1 := (pg + push_bit (i - 1) 1) # free_list nmi (i - 1)),
                free_count := (free_count nmi)(i - 1 := free_count nmi (i - 1) + 1)\<rparr>)
          pg (i - 1) order
      else nmi)"
  by (subst split_block.simps) (simp add: Let_def)

lemma split_block_counted:
  "order \<le> i \<Longrightarrow> i \<le> MAX_ORDER h \<Longrightarrow>
   (\<And>k. order \<le> k \<Longrightarrow> k < i \<Longrightarrow> free_count nmi k = 0) \<Longrightarrow>
   counted_pages h (split_block nmi pg i order) + 2 ^ order = counted_pages h nmi + 2 ^ i
   \<and> free_pages (split_block nmi pg i order) = free_pages nmi"
proof (induction x \<equiv> "i - order" arbitrary: i nmi)
  case 0
  then have "i = order" by simp
  then show ?case by (subst (1 2) split_block_step) simp
next
  case (Suc x)
  then have gt: "order < i" and x: "x = (i - 1) - order" by simp_all
  let ?nmi1 = "nmi\<lparr>free_list := (free_list nmi)(i - 1 := (pg + push_bit (i - 1) 1) # free_list nmi (i - 1)),
                free_count := (free_count nmi)(i - 1 := free_count nmi (i - 1) + 1)\<rparr>"
  have z: "free_count nmi (i - 1) = 0" using gt by (intro Suc.prems(3)) simp_all
  have "counted_pages h ?nmi1 + unat (free_count nmi (i - 1)) * 2 ^ (i - 1)
        = counted_pages h nmi + unat (free_count ?nmi1 (i - 1)) * 2 ^ (i - 1)"
    using gt Suc.prems(2) by (intro counted_pages_upd) simp_all
  then have c1: "counted_pages h ?nmi1 = counted_pages h nmi + 2 ^ (i - 1)"
    using z by simp
  have "counted_pages h (split_block ?nmi1 pg (i - 1) order) + 2 ^ order
          = counted_pages h ?nmi1 + 2 ^ (i - 1)
        \<and> free_pages (split_block ?nmi1 pg (i - 1) order) = free_pages ?nmi1"
    using gt Suc.prems(2) by (intro Suc.hyps(1)[OF x]) (simp_all add: Suc.prems(3))
  moreover have "(2 :: nat) ^ (i - 1) + 2 ^ (i - 1) = 2 ^ i"
    using gt by (cases i) simp_all
  moreover have "split_block nmi pg i order = split_block ?nmi1 pg (i - 1) order"
    using gt by (subst split_block_step) simp
  ultimately show ?case using c1 by simp
qed

lemma counted_pages_frame: "counted_pages h (nmi\<lparr>free_pages := x\<rparr>) = counted_pages h nmi"
  by (simp add: counted_pages_def)

lemma alloc_split_invariant:
  "node_invariant h nmi \<Longrightarrow> order < i \<Longrightarrow> MAX_ORDER h \<le> 64 \<Longrightarrow>
   (\<And>k. order \<le> k \<Longrightarrow> k < i \<Longrightarrow> free_count nmi k = 0) \<Longrightarrow>
   alloc_split h nmi order i = Some (Some (pg, nmi')) \<Longrightarrow> node_invariant h nmi'"
proof (induction x \<equiv> "MAX_ORDER h - i" arbitrary: i)
  case 0
  then have "\<not> i < MAX_ORDER h" by linarith
  with 0(6) show ?case by (subst (asm) alloc_split.simps) simp
next
  case (Suc x)
  then have lt: "i < MAX_ORDER h" and x: "x = MAX_ORDER h - (i + 1)" by simp_all
  show ?case
  proof (cases "free_count nmi i = 0")
    case True
    with Suc.prems(5) lt have r: "alloc_split h nmi order (i + 1) = Some (Some (pg, nmi'))"
      by (subst (asm) alloc_split.simps) simp
    have "free_count nmi k = 0" if "order \<le> k" "k < i + 1" for k
      using that True Suc.prems(4)[of k] by (cases "k = i") simp_all
    with Suc.hyps(1)[OF x Suc.prems(1) _ Suc.prems(3) _ r] Suc.prems(2) show ?thesis by simp
  next
    case False
    then have pos: "free_count nmi i > 0" by (simp add: word_gt_0)
    with Suc.prems(5) lt obtain rest where l: "free_list nmi i = pg # rest"
      by (subst (asm) alloc_split.simps) (auto simp: Let_def split: list.splits)
    let ?nmi1 = "nmi\<lparr>free_list := (free_list nmi)(i := rest),
                      free_count := (free_count nmi)(i := free_count nmi i - 1)\<rparr>"
    let ?nmi2 = "split_block ?nmi1 pg i order"
    from Suc.prems(5) lt pos l
    have nmi': "nmi' = ?nmi2\<lparr>free_pages := free_pages ?nmi2 - 2 ^ order\<rparr>"
      by (subst (asm) alloc_split.simps) (simp add: Let_def)
    have c1: "counted_pages h ?nmi1 + 2 ^ i = counted_pages h nmi"
      using lt False by (rule counted_dec) simp_all
    have s: "counted_pages h ?nmi2 + 2 ^ order = counted_pages h ?nmi1 + 2 ^ i
             \<and> free_pages ?nmi2 = free_pages ?nmi1"
      using Suc.prems(2) lt by (intro split_block_counted) (simp_all add: Suc.prems(4))
    from Suc.prems(1) have fp: "unat (free_pages nmi) = counted_pages h nmi"
      by (simp add: node_invariant_def)
    from s c1 have c2: "counted_pages h ?nmi2 + 2 ^ order = counted_pages h nmi" by simp
    then have le: "2 ^ order \<le> counted_pages h nmi" by linarith
    have o64: "order < 64" using Suc.prems(2,3) lt by linarith
    have "unat (free_pages nmi') = counted_pages h nmi - 2 ^ order"
      unfolding nmi' using s fp le o64 by (simp add: sub_block)
    moreover have "counted_pages h nmi' = counted_pages h ?nmi2"
      unfolding nmi' by (rule counted_pages_frame)
    ultimately show ?thesis using c2 by (simp add: node_invariant_def)
  qed
qed

lemma upd_node_invariant:
  assumes "\<forall>n. node_invariant h (nodes st n)" "node_invariant h nmi'"
  shows "\<forall>n. node_invariant h (nodes (upd_node st node (\<lambda>_. nmi')) n)"
  using assms by (simp add: upd_node_def)

lemma strict_unfold:
  "numa_alloc_pages_strict st node order =
     (if node \<ge> unat (num_nodes st) then Some (Null, st)
      else if free_count (nodes st node) order \<noteq> 0 then
          (case take_first (nodes st node) order of
             None \<Rightarrow> None
           | Some (pg, nmi') \<Rightarrow> Some (Page pg, upd_node st node (\<lambda>_. nmi')))
        else Some (Null, st))"
  by (simp add: numa_alloc_pages_strict_def Let_def word_gt_0)

lemma numa_alloc_pages_strict_invariant:
  assumes inv: "\<forall>n. node_invariant h (nodes st n)"
    and ord: "order < MAX_ORDER h" "MAX_ORDER h \<le> 64"
    and run: "numa_alloc_pages_strict st node order = Some (r, st')"
  shows "\<forall>n. node_invariant h (nodes st' n)"
proof (cases "node < unat (num_nodes st) \<and> free_count (nodes st node) order \<noteq> 0")
  case True
  then have pos: "0 < free_count (nodes st node) order" by (simp add: word_gt_0)
  show ?thesis
  proof (cases "take_first (nodes st node) order")
    case None
    with run True show ?thesis by (simp add: strict_unfold)
  next
    case (Some a)
    obtain pg nmi' where a: "a = (pg, nmi')" by (cases a)
    with run True Some have st': "st' = upd_node st node (\<lambda>_. nmi')"
      by (simp add: strict_unfold)
    from inv have n: "node_invariant h (nodes st node)" by simp
    from True have c: "free_count (nodes st node) order \<noteq> 0" by simp
    from Some a have t: "take_first (nodes st node) order = Some (pg, nmi')" by simp
    have "node_invariant h nmi'"
      using n ord c t by (rule take_first_invariant)
    with inv show ?thesis unfolding st' by (rule upd_node_invariant)
  qed
next
  case False
  with run have "st' = st"
    by (auto simp: strict_unfold split: if_splits)
  with inv show ?thesis by simp
qed

lemma alloc_fallback_step:
  "alloc_fallback st node order i =
     (if i < unat (num_nodes st) then
        (case numa_alloc_pages_strict st (unat (fallback st node i)) order of
           None \<Rightarrow> None
         | Some (Page pg, st') \<Rightarrow> Some (Page pg, st')
         | Some (_, st') \<Rightarrow> alloc_fallback st node order (i + 1))
      else Some (Null, st))"
  by (subst alloc_fallback.simps) (simp add: Let_def)

lemma alloc_fallback_invariant:
  "\<forall>n. node_invariant h (nodes st n) \<Longrightarrow> order < MAX_ORDER h \<Longrightarrow> MAX_ORDER h \<le> 64 \<Longrightarrow>
   alloc_fallback st node order i = Some (r, st') \<Longrightarrow> \<forall>n. node_invariant h (nodes st' n)"
proof (induction x \<equiv> "unat (num_nodes st) - i" arbitrary: i)
  case 0
  then have "\<not> i < unat (num_nodes st)" by linarith
  with 0(5) have "st' = st" by (subst (asm) alloc_fallback_step) simp
  with 0 show ?case by simp
next
  case (Suc x)
  then have lt: "i < unat (num_nodes st)" and x: "x = unat (num_nodes st) - (i + 1)"
    by simp_all
  let ?attempt = "numa_alloc_pages_strict st (unat (fallback st node i)) order"
  from Suc.prems(4) lt have run:
    "(case ?attempt of None \<Rightarrow> None
      | Some (Page pg, st') \<Rightarrow> Some (Page pg, st')
      | Some (_, st') \<Rightarrow> alloc_fallback st node order (i + 1)) = Some (r, st')"
    by (subst (asm) alloc_fallback_step) simp
  show ?case
  proof (cases ?attempt)
    case None
    with run show ?thesis by simp
  next
    case (Some a)
    obtain res st1 where a: "a = (res, st1)" by (cases a)
    show ?thesis
    proof (cases res)
      case (Page pg)
      with run Some a have "st1 = st'" by simp
      with Some a have "numa_alloc_pages_strict st (unat (fallback st node i)) order = Some (res, st')"
        by simp
      with Suc.prems(1-3) show ?thesis by (rule numa_alloc_pages_strict_invariant)
    next
      case Null
      with run Some a have "alloc_fallback st node order (i + 1) = Some (r, st')" by simp
      from Suc.hyps(1)[OF x Suc.prems(1-3) this] show ?thesis .
    next
      case Regular_alloc
      with run Some a have "alloc_fallback st node order (i + 1) = Some (r, st')" by simp
      from Suc.hyps(1)[OF x Suc.prems(1-3) this] show ?thesis .
    qed
  qed
qed

lemma numa_alloc_pages_invariant:
  assumes inv: "\<forall>n. node_invariant h (nodes st n)"
    and ord: "order < MAX_ORDER h" "MAX_ORDER h \<le> 64"
    and run: "numa_alloc_pages h st node order = Some (r, st')"
  shows "\<forall>n. node_invariant h (nodes st' n)"
proof -
  from inv have n: "node_invariant h (nodes st node)" by simp
  consider "\<not> numa_enabled st"
    | "numa_enabled st" "free_count (nodes st node) order \<noteq> 0"
    | "numa_enabled st" "free_count (nodes st node) order = 0" by blast
  then show ?thesis
  proof cases
    case 1
    with run have "st' = st" by (simp add: numa_alloc_pages_def)
    with inv show ?thesis by simp
  next
    case 2
    then have pos: "0 < free_count (nodes st node) order" by (simp add: word_gt_0)
    show ?thesis
    proof (cases "take_first (nodes st node) order")
      case None
      with run 2 pos show ?thesis by (simp add: numa_alloc_pages_def Let_def)
    next
      case (Some a)
      obtain pg nmi' where a: "a = (pg, nmi')" by (cases a)
      with run 2 pos Some have st': "st' = upd_node st node (\<lambda>_. nmi')"
        by (simp add: numa_alloc_pages_def Let_def)
      have "node_invariant h nmi'" using n ord 2(2) Some[unfolded a] by (rule take_first_invariant)
      with inv show ?thesis unfolding st' by (rule upd_node_invariant)
    qed
  next
    case 3
    then have npos: "\<not> 0 < free_count (nodes st node) order" by simp
    show ?thesis
    proof (cases "alloc_split h (nodes st node) order (order + 1)")
      case None
      with run 3 npos show ?thesis by (simp add: numa_alloc_pages_def Let_def)
    next
      case (Some b)
      show ?thesis
      proof (cases b)
        case None
        with run 3 npos Some have "alloc_fallback st node order 1 = Some (r, st')"
          by (simp add: numa_alloc_pages_def Let_def)
        with inv ord show ?thesis by (rule alloc_fallback_invariant)
      next
        case (Some a)
        obtain pg nmi' where a: "a = (pg, nmi')" by (cases a)
        with run 3 npos Some \<open>alloc_split h (nodes st node) order (order + 1) = Some b\<close>
        have st': "st' = upd_node st node (\<lambda>_. nmi')"
          by (simp add: numa_alloc_pages_def Let_def)
        have sp: "alloc_split h (nodes st node) order (order + 1) = Some (Some (pg, nmi'))"
          using Some a \<open>alloc_split h (nodes st node) order (order + 1) = Some b\<close> by simp
        have "node_invariant h nmi'"
          using n _ ord(2) _ sp
        proof (rule alloc_split_invariant)
          show "order < order + 1" by simp
          fix k assume "order \<le> k" "k < order + 1"
          then have "k = order" by simp
          with 3(2) show "free_count (nodes st node) k = 0" by simp
        qed
        with inv show ?thesis unfolding st' by (rule upd_node_invariant)
      qed
    qed
  qed
qed

declare merge_buddies.simps [simp del]

lemma merge_buddies_step:
  "merge_buddies h st node pg order =
     (if order < MAX_ORDER h - 1
         \<and> page_flags (pages st (pg XOR push_bit order 1)) AND PAGE_FLAG_BUDDY h \<noteq> 0
         \<and> unat (page_order (pages st (pg XOR push_bit order 1))) = order
      then merge_buddies h
             ((upd_node (unlink_page st (pg XOR push_bit order 1)) node
                 (\<lambda>nmi. nmi\<lparr>free_count := (free_count nmi)(order := free_count nmi order - 1)\<rparr>))
                \<lparr>pages := (pages st)(pg XOR push_bit order 1 :=
                     (pages st (pg XOR push_bit order 1))
                       \<lparr>page_flags := page_flags (pages st (pg XOR push_bit order 1))
                                       AND NOT (PAGE_FLAG_BUDDY h)\<rparr>)\<rparr>)
             node (if pg XOR push_bit order 1 < pg then pg XOR push_bit order 1 else pg)
             (order + 1)
      else (st, pg, order))"
  by (subst merge_buddies.simps) (simp add: Let_def upd_node_def unlink_page_def)

lemma merge_buddies_counted:
  "(\<And>pfn. flagged h st pfn \<Longrightarrow> order \<le> unat (page_order (pages st pfn)) \<Longrightarrow>
      free_count (nodes st node) (unat (page_order (pages st pfn))) \<noteq> 0) \<Longrightarrow>
   order < MAX_ORDER h \<Longrightarrow>
   merge_buddies h st node pg order = (st1, pg1, order1) \<Longrightarrow>
   order \<le> order1 \<and> order1 < MAX_ORDER h
   \<and> counted_pages h (nodes st1 node) + 2 ^ order1 = counted_pages h (nodes st node) + 2 ^ order
   \<and> free_pages (nodes st1 node) = free_pages (nodes st node)
   \<and> free_count (nodes st1 node) order1 = free_count (nodes st node) order1"
proof (induction x \<equiv> "MAX_ORDER h - 1 - order" arbitrary: order st pg)
  case 0
  then have "\<not> order < MAX_ORDER h - 1" by linarith
  with 0(4) have "st1 = st" "order1 = order" by (subst (asm) merge_buddies_step; simp)+
  with 0 show ?case by simp
next
  case (Suc x)
  then have lt: "order < MAX_ORDER h - 1" and x: "x = MAX_ORDER h - 1 - (order + 1)"
    by simp_all
  let ?b = "pg XOR push_bit order 1"
  show ?case
  proof (cases "page_flags (pages st ?b) AND PAGE_FLAG_BUDDY h \<noteq> 0
                \<and> unat (page_order (pages st ?b)) = order")
    case False
    with Suc.prems(3) have "st1 = st" "order1 = order"
      by (subst (asm) merge_buddies_step; auto)+
    with Suc.prems(2) show ?thesis by simp
  next
    case True
    define st3 where "st3 = (upd_node (unlink_page st ?b) node
                 (\<lambda>nmi. nmi\<lparr>free_count := (free_count nmi)(order := free_count nmi order - 1)\<rparr>))
                \<lparr>pages := (pages st)(?b :=
                     (pages st ?b)\<lparr>page_flags := page_flags (pages st ?b)
                                       AND NOT (PAGE_FLAG_BUDDY h)\<rparr>)\<rparr>"
    let ?pg' = "if ?b < pg then ?b else pg"
    from Suc.prems(3) lt True have run: "merge_buddies h st3 node ?pg' (order + 1) = (st1, pg1, order1)"
      unfolding st3_def by (subst (asm) merge_buddies_step) simp
    have fl: "flagged h st ?b" using True by (simp add: flagged_def)
    from Suc.prems(1)[OF fl] True have nz: "free_count (nodes st node) order \<noteq> 0" by simp
    have cnt3: "free_count (nodes st3 node) k =
                (if k = order then free_count (nodes st node) order - 1
                 else free_count (nodes st node) k)" for k
      by (simp add: st3_def upd_node_def unlink_page_def)
    have fp3: "free_pages (nodes st3 node) = free_pages (nodes st node)"
      by (simp add: st3_def upd_node_def unlink_page_def)
    have pg3: "\<not> flagged h st3 ?b"
      "\<And>pfn. pfn \<noteq> ?b \<Longrightarrow> pages st3 pfn = pages st pfn"
      by (simp_all add: st3_def flagged_def word_bw_assocs)
    have c3: "counted_pages h (nodes st3 node) + 2 ^ order = counted_pages h (nodes st node)"
      using Suc.prems(2) nz by (rule counted_dec) (simp_all add: cnt3)
    have pre: "free_count (nodes st3 node) (unat (page_order (pages st3 pfn))) \<noteq> 0"
      if "flagged h st3 pfn" "order + 1 \<le> unat (page_order (pages st3 pfn))" for pfn
    proof -
      from that(1) pg3(1) have ne: "pfn \<noteq> ?b" by auto
      with that(1) pg3(2)[OF ne] have f: "flagged h st pfn" by (simp add: flagged_def)
      from that(2) pg3(2)[OF ne] have o: "order + 1 \<le> unat (page_order (pages st pfn))" by simp
      then have "order \<le> unat (page_order (pages st pfn))" by simp
      from Suc.prems(1)[OF f this] o pg3(2)[OF ne] show ?thesis by (simp add: cnt3)
    qed
    from lt have lt': "order + 1 < MAX_ORDER h" by simp
    from Suc.hyps(1)[OF x pre lt' run]
    have r: "order + 1 \<le> order1" "order1 < MAX_ORDER h"
      "counted_pages h (nodes st1 node) + 2 ^ order1
         = counted_pages h (nodes st3 node) + 2 ^ (order + 1)"
      "free_pages (nodes st1 node) = free_pages (nodes st3 node)"
      "free_count (nodes st1 node) order1 = free_count (nodes st3 node) order1"
      by simp_all
    from r(3) c3 have "counted_pages h (nodes st1 node) + 2 ^ order1
         = counted_pages h (nodes st node) + 2 ^ order"
      by simp
    with r(1,2,4,5) fp3 show ?thesis by (simp add: cnt3)
  qed
qed

lemma add_block:
  assumes "unat fp + 2 ^ order < 2 ^ 64" "order < 64"
  shows "unat (fp + 2 ^ order :: u64) = unat fp + 2 ^ order"
proof -
  have "unat (fp + 2 ^ order) = (unat fp + unat (2 ^ order :: u64)) mod 2 ^ 64"
    by (simp add: unat_word_ariths)
  with assms show ?thesis by (simp add: unat_block)
qed

lemma numa_free_pages_accounting:
  assumes node: "node = unat (numa_node (pages st pg))"
    and inv: "node_invariant h (nodes st node)"
    and sound: "\<And>pfn. flagged h st pfn \<Longrightarrow> order \<le> unat (page_order (pages st pfn)) \<Longrightarrow>
                  free_count (nodes st node) (unat (page_order (pages st pfn))) \<noteq> 0"
    and ord: "order < MAX_ORDER h" "MAX_ORDER h \<le> 64"
    and room: "\<And>k. unat (free_count (nodes st node) k) < 2 ^ 32 - 1"
      "unat (free_pages (nodes st node)) + 2 ^ MAX_ORDER h \<le> 2 ^ 64"
    and m: "merge_buddies h st node pg order = (st1, pg1, order1)"
  shows "unat (free_pages (nodes (numa_free_pages h st pg order) node)) + 2 ^ order
         = counted_pages h (nodes (numa_free_pages h st pg order) node) + 2 ^ order1"
    and "node_invariant h (nodes (numa_free_pages h st pg order) node) = (order1 = order)"
proof -
  let ?nmi1 = "nodes st1 node"
  define nmi' where "nmi' = ?nmi1\<lparr>free_list := (free_list ?nmi1)(order1 := pg1 # free_list ?nmi1 order1),
                      free_count := (free_count ?nmi1)(order1 := free_count ?nmi1 order1 + 1),
                      free_pages := free_pages ?nmi1 + push_bit order1 1\<rparr>"
  have res: "nodes (numa_free_pages h st pg order) node = nmi'"
    using m by (simp add: numa_free_pages_def Let_def node[symmetric] upd_node_def nmi'_def)
  from merge_buddies_counted[OF sound ord(1) m]
  have r: "order \<le> order1" "order1 < MAX_ORDER h"
    "counted_pages h ?nmi1 + 2 ^ order1 = counted_pages h (nodes st node) + 2 ^ order"
    "free_pages ?nmi1 = free_pages (nodes st node)"
    "free_count ?nmi1 order1 = free_count (nodes st node) order1"
    by simp_all
  from inv have fp: "unat (free_pages (nodes st node)) = counted_pages h (nodes st node)"
    by (simp add: node_invariant_def)
  have o64: "order1 < 64" using r(2) ord(2) by linarith
  have "(2 :: nat) ^ order1 < 2 ^ MAX_ORDER h"
    using r(2) by (intro power_strict_increasing) simp_all
  with room(2) have noov: "unat (free_pages (nodes st node)) + 2 ^ order1 < 2 ^ 64" by linarith
  have fp': "unat (free_pages nmi') = unat (free_pages (nodes st node)) + 2 ^ order1"
    using noov o64 by (simp add: nmi'_def r(4) add_block)
  have "unat (free_count ?nmi1 order1 + 1) = unat (free_count ?nmi1 order1) + 1"
    using room(1)[of order1] by (simp add: r(5) unat_word_ariths)
  then have cnt: "unat (free_count nmi' order1) = unat (free_count ?nmi1 order1) + 1"
    by (simp add: nmi'_def)
  have "counted_pages h nmi' + unat (free_count ?nmi1 order1) * 2 ^ order1
        = counted_pages h ?nmi1 + unat (free_count nmi' order1) * 2 ^ order1"
    using r(2) by (rule counted_pages_upd) (simp add: nmi'_def)
  then have c': "counted_pages h nmi' = counted_pages h ?nmi1 + 2 ^ order1"
    by (simp add: cnt)
  from fp' fp c' r(3)
  have eq: "unat (free_pages nmi') + 2 ^ order = counted_pages h nmi' + 2 ^ order1"
    by simp
  then show "unat (free_pages (nodes (numa_free_pages h st pg order) node)) + 2 ^ order
         = counted_pages h (nodes (numa_free_pages h st pg order) node) + 2 ^ order1"
    by (simp add: res)
  have "(unat (free_pages nmi') = counted_pages h nmi') = ((2 :: nat) ^ order = 2 ^ order1)"
    using eq by linarith
  then show "node_invariant h (nodes (numa_free_pages h st pg order) node) = (order1 = order)"
    by (auto simp: res node_invariant_def)
qed


end
